theory Spec2Isabelle
  imports Main
begin

section \<open>The fexpr scanner (scanner.go)\<close>

text \<open>
  A shallow embedding of the lexical scanner of the fexpr filter language. The scanner
  keeps a byte buffer and a cursor; \<open>read\<close> decodes one UTF-8 code point at the cursor and
  \<open>unread\<close> moves the cursor back. Bytes are \<open>char\<close>, byte strings are \<open>string\<close>, a rune
  (a decoded code point, Go's \<open>int32\<close>) is a natural number: the decoder never produces a
  negative one. The cursor is a slice index and is a natural number; its only decrement is
  the one of \<open>unread\<close>, which the source guards with \<open>s.pos > 0\<close>, and the guard is kept.
\<close>

subsection \<open>Runes and UTF-8 (the functions of Go's unicode/utf8 that the scanner calls)\<close>

type_synonym rune = nat

abbreviation rune_of :: "char \<Rightarrow> rune" where
  "rune_of c \<equiv> of_char c"

text \<open>\<open>const eof = rune(0)\<close>\<close>

definition eof :: rune where
  "eof = 0"

definition RuneError :: rune where
  "RuneError = 65533"

text \<open>
  \<open>utf8.DecodeRune\<close>: the rune at the head of a byte slice and its width in bytes. An
  empty slice gives \<open>(RuneError, 0)\<close>, an invalid or truncated encoding \<open>(RuneError, 1)\<close>.
  The first-byte table and the accept ranges of the Go implementation are written out as
  comparisons: the width \<open>sz\<close> follows from the first byte, and the second byte must lie in
  \<open>lo..hi\<close> (narrower for the first bytes E0, ED, F0 and F4, which excludes overlong forms,
  surrogates and values above 10FFFF).
\<close>

fun DecodeRune :: "string \<Rightarrow> rune \<times> nat" where
  "DecodeRune [] = (RuneError, 0)"
| "DecodeRune (c0 # p) =
     (let p0 = rune_of c0 in
      if p0 < 128 then (p0, 1)
      else if p0 < 194 \<or> 244 < p0 then (RuneError, 1)
      else
        let sz = (if p0 < 224 then 2 else if p0 < 240 then 3 else 4 :: nat);
            lo = (if p0 = 224 then 160 else if p0 = 240 then 144 else 128 :: nat);
            hi = (if p0 = 237 then 159 else if p0 = 244 then 143 else 191 :: nat)
        in
        if length (c0 # p) < sz then (RuneError, 1)
        else
          let b1 = rune_of (p ! 0) in
          if b1 < lo \<or> hi < b1 then (RuneError, 1)
          else if sz \<le> 2 then ((p0 mod 32) * 64 + b1 mod 64, 2)
          else
            let b2 = rune_of (p ! 1) in
            if b2 < 128 \<or> 191 < b2 then (RuneError, 1)
            else if sz \<le> 3 then ((p0 mod 16) * 4096 + (b1 mod 64) * 64 + b2 mod 64, 3)
            else
              let b3 = rune_of (p ! 2) in
              if b3 < 128 \<or> 191 < b3 then (RuneError, 1)
              else ((p0 mod 8) * 262144 + (b1 mod 64) * 4096 + (b2 mod 64) * 64 + b3 mod 64, 4))"

text \<open>
  \<open>bytes.Buffer.WriteRune\<close> and the conversion \<open>string(ch)\<close> both produce the UTF-8
  encoding of a rune (\<open>utf8.AppendRune\<close>); a surrogate or a value above 10FFFF is encoded
  as \<open>RuneError\<close>, the three bytes EF BF BD.
\<close>

definition EncodeRune :: "rune \<Rightarrow> string" where
  "EncodeRune r =
     (if r \<le> 127 then [char_of r]
      else if r \<le> 2047 then [char_of (192 + r div 64), char_of (128 + r mod 64)]
      else if 1114111 < r \<or> (55296 \<le> r \<and> r \<le> 57343) then [CHR 0xEF, CHR 0xBF, CHR 0xBD]
      else if r \<le> 65535 then
        [char_of (224 + r div 4096), char_of (128 + (r div 64) mod 64), char_of (128 + r mod 64)]
      else
        [char_of (240 + r div 262144), char_of (128 + (r div 4096) mod 64),
         char_of (128 + (r div 64) mod 64), char_of (128 + r mod 64)])"

subsection \<open>Tokens, errors and the scanner state\<close>

datatype TokenType =
    TokenUnexpected
  | TokenEOF
  | TokenWS
  | TokenJoin
  | TokenSign
  | TokenIdentifier
  | TokenFunction
  | TokenNumber
  | TokenText
  | TokenGroup
  | TokenComment

text \<open>
  \<open>Token.Meta\<close> is an \<open>interface{}\<close>: \<open>None\<close> is the nil interface of a token built without
  the field, \<open>Some args\<close> the argument slice of a function token.
\<close>

datatype Token = Token (Meta: "Token list option") (Type: TokenType) (Literal: string)

text \<open>
  One constructor for each error the scanner builds with \<open>fmt.Errorf\<close>, carrying the values
  formatted into its message; the errors of \<open>scanFunctionArgs\<close> that wrap another error with
  \<open>%w\<close> carry it. \<open>RuntimePanic\<close> stands for a Go run-time panic (an index or a slice bound
  out of range).
\<close>

datatype error =
    ErrUnexpectedChar rune
  | ErrInvalidNumber string
  | ErrInvalidQuotedText string
  | ErrInvalidComment
  | ErrMaxNestedFunc int
  | ErrInvalidFuncName string
  | ErrInvalidIdentifier string
  | ErrInvalidSign string
  | ErrInvalidJoin string
  | ErrMissingClosingBrackets int
  | ErrIncompleteFuncCall string
  | ErrFuncWhitespace string error
  | ErrFuncComment string error
  | ErrExpectedComma string
  | ErrUnexpectedComma string
  | ErrInvalidIdentifierArg string string error
  | ErrInvalidNumberArg string string error
  | ErrInvalidTextArg string string error
  | ErrUnsupportedArgChar rune string
  | ErrIncompleteFunc string
  | RuntimePanic

record Scanner =
  data :: string
  pos :: nat
  maxFuncDepth :: int

type_synonym scanned = "Token \<times> error option \<times> Scanner"

definition NewScanner :: "string \<Rightarrow> Scanner" where
  "NewScanner d = \<lparr>data = d, pos = 0, maxFuncDepth = 3\<rparr>"

definition unread :: "Scanner \<Rightarrow> Scanner" where
  "unread s = (if pos s > 0 then s\<lparr>pos := pos s - 1\<rparr> else s)"

definition read :: "Scanner \<Rightarrow> rune \<times> Scanner" where
  "read s =
     (if pos s \<ge> length (data s) then (eof, s)
      else case DecodeRune (drop (pos s) (data s)) of
             (ch, n) \<Rightarrow> (ch, s\<lparr>pos := pos s + n\<rparr>))"

subsection \<open>Lexical helpers\<close>

definition isWhitespaceRune :: "rune \<Rightarrow> bool" where
  "isWhitespaceRune ch = (ch = rune_of CHR '' '' \<or> ch = 9 \<or> ch = 10)"

definition isLetterRune :: "rune \<Rightarrow> bool" where
  "isLetterRune ch =
     ((ch \<ge> rune_of CHR ''a'' \<and> ch \<le> rune_of CHR ''z'') \<or>
      (ch \<ge> rune_of CHR ''A'' \<and> ch \<le> rune_of CHR ''Z''))"

definition isDigitRune :: "rune \<Rightarrow> bool" where
  "isDigitRune ch = (ch \<ge> rune_of CHR ''0'' \<and> ch \<le> rune_of CHR ''9'')"

definition isTextStartRune :: "rune \<Rightarrow> bool" where
  "isTextStartRune ch = (ch = 39 \<or> ch = 34)"

definition isNumberStartRune :: "rune \<Rightarrow> bool" where
  "isNumberStartRune ch = (ch = rune_of CHR ''-'' \<or> isDigitRune ch)"

definition isSignStartRune :: "rune \<Rightarrow> bool" where
  "isSignStartRune ch =
     (ch = rune_of CHR ''='' \<or> ch = rune_of CHR ''?'' \<or> ch = rune_of CHR ''!'' \<or>
      ch = rune_of CHR ''>'' \<or> ch = rune_of CHR ''<'' \<or> ch = rune_of CHR ''~'')"

definition isJoinStartRune :: "rune \<Rightarrow> bool" where
  "isJoinStartRune ch = (ch = rune_of CHR ''&'' \<or> ch = rune_of CHR ''|'')"

definition isGroupStartRune :: "rune \<Rightarrow> bool" where
  "isGroupStartRune ch = (ch = rune_of CHR ''('')"

definition isCommentStartRune :: "rune \<Rightarrow> bool" where
  "isCommentStartRune ch = (ch = rune_of CHR ''/'')"

definition isIdentifierSpecialStartRune :: "rune \<Rightarrow> bool" where
  "isIdentifierSpecialStartRune ch =
     (ch = rune_of CHR ''@'' \<or> ch = rune_of CHR ''_'' \<or> ch = rune_of CHR ''#'')"

definition isIdentifierStartRune :: "rune \<Rightarrow> bool" where
  "isIdentifierStartRune ch = (isLetterRune ch \<or> isIdentifierSpecialStartRune ch)"

definition isIdentifierCombineRune :: "rune \<Rightarrow> bool" where
  "isIdentifierCombineRune ch = (ch = rune_of CHR ''.'' \<or> ch = rune_of CHR '':'')"

definition isSignOperator :: "string \<Rightarrow> bool" where
  "isSignOperator literal =
     (literal \<in> set [''='', ''!='', ''<'', ''<='', ''>'', ''>='', ''~'', ''!~'',
                     ''?='', ''?!='', ''?~'', ''?!~'', ''?<'', ''?<='', ''?>'', ''?>=''])"

definition isJoinOperator :: "string \<Rightarrow> bool" where
  "isJoinOperator literal = (literal \<in> set [''&&'', ''||''])"

text \<open>
  \<open>isValidIdentifier\<close> indexes \<open>literal[length-1]\<close> first: on an empty literal Go panics,
  which is the value \<open>None\<close>.
\<close>

definition isValidIdentifier :: "string \<Rightarrow> bool option" where
  "isValidIdentifier literal =
     (let len = length literal in
      if len = 0 then None
      else Some (\<not> isIdentifierCombineRune (rune_of (literal ! (len - 1))) \<and>
                 (len \<noteq> 1 \<or> \<not> isIdentifierSpecialStartRune (rune_of (literal ! 0)))))"

subsection \<open>The cursor: how far a read moves it\<close>

definition remaining :: "Scanner \<Rightarrow> nat" where
  "remaining s = length (data s) - pos s"

lemma mod_window: "(k::nat) * m \<le> x \<Longrightarrow> x < k * m + m \<Longrightarrow> x mod m = x - k * m"
proof -
  assume a: "k * m \<le> x" and b: "x < k * m + m"
  have "x mod m = (k * m + (x - k * m)) mod m" using a by simp
  also have "\<dots> = (x - k * m) mod m" by (rule mod_mult_self3)
  also have "\<dots> = x - k * m" using a b by simp
  finally show ?thesis .
qed

lemma list4_cases:
  obtains "p = []" | b1 where "p = [b1]" | b1 b2 where "p = [b1, b2]"
    | b1 b2 b3 r where "p = b1 # b2 # b3 # r"
  by (metis list.exhaust)

lemma DecodeRune_width:
  "bs \<noteq> [] \<Longrightarrow> 1 \<le> snd (DecodeRune bs) \<and> snd (DecodeRune bs) \<le> length bs"
  by (cases bs) (auto simp: Let_def Suc_le_eq not_less)

lemma DecodeRune_cases:
  assumes "bs \<noteq> []"
  shows "(rune_of (hd bs) < 128 \<and> DecodeRune bs = (rune_of (hd bs), 1)) \<or>
         (128 \<le> rune_of (hd bs) \<and> 128 \<le> fst (DecodeRune bs) \<and>
          (\<forall>c \<in> set (take (snd (DecodeRune bs)) bs). 128 \<le> rune_of c))"
proof (cases bs)
  case Nil
  with assms show ?thesis by simp
next
  case (Cons c0 p)
  show ?thesis
  proof (cases "rune_of c0 < 128")
    case True
    with Cons show ?thesis by simp
  next
    case False
    define x where "x = rune_of c0"
    have x: "128 \<le> x" using False by (simp add: x_def)
    consider "x < 194 \<or> 244 < x" | "194 \<le> x" "x < 224" | "x = 224" | "224 < x" "x < 240"
      | "x = 240" | "240 < x" "x \<le> 244" by linarith
    then show ?thesis
    proof cases
      case 1
      then show ?thesis using x Cons by (auto simp: x_def RuneError_def)
    next
      case 2
      then have m: "2 \<le> x mod 32" using mod_window [of 6 32 x] by simp
      show ?thesis using 2 m x Cons
        by (cases p rule: list4_cases) (auto simp: x_def Let_def RuneError_def)
    next
      case 3
      have c: "\<And>y::nat. 160 \<le> y \<Longrightarrow> y \<le> 191 \<Longrightarrow> 32 \<le> y mod 64"
        using mod_window [of 2 64] by simp
      show ?thesis using 3 x Cons
        by (cases p rule: list4_cases) (auto simp: x_def Let_def RuneError_def not_less dest!: c)
    next
      case 4
      then have m: "1 \<le> x mod 16" using mod_window [of 14 16 x] by simp
      show ?thesis using 4 m x Cons
        by (cases p rule: list4_cases) (auto simp: x_def Let_def RuneError_def)
    next
      case 5
      have c: "\<And>y::nat. 144 \<le> y \<Longrightarrow> y \<le> 191 \<Longrightarrow> 16 \<le> y mod 64"
        using mod_window [of 2 64] by simp
      show ?thesis using 5 x Cons
        by (cases p rule: list4_cases) (auto simp: x_def Let_def RuneError_def not_less dest!: c)
    next
      case 6
      then have m: "1 \<le> x mod 8" using mod_window [of 30 8 x] by simp
      show ?thesis using 6 m x Cons
        by (cases p rule: list4_cases) (auto simp: x_def Let_def RuneError_def)
    qed
  qed
qed

lemma DecodeRune_ascii:
  assumes "bs \<noteq> []" and "fst (DecodeRune bs) < 128"
  shows "snd (DecodeRune bs) = 1 \<and> fst (DecodeRune bs) = rune_of (hd bs)"
  using DecodeRune_cases [OF assms(1)] assms(2) by auto

lemma read_data: "read s = (ch, s1) \<Longrightarrow> data s1 = data s"
  by (auto simp: read_def split: if_splits prod.splits)

lemma read_maxFuncDepth: "read s = (ch, s1) \<Longrightarrow> maxFuncDepth s1 = maxFuncDepth s"
  by (auto simp: read_def split: if_splits prod.splits)

lemma read_pos_mono: "read s = (ch, s1) \<Longrightarrow> pos s \<le> pos s1"
  by (auto simp: read_def split: if_splits prod.splits)

lemma read_at_end: "length (data s) \<le> pos s \<Longrightarrow> read s = (eof, s)"
  by (simp add: read_def)

lemma read_advance:
  assumes "read s = (ch, s1)" and "pos s < length (data s)"
  shows "pos s < pos s1 \<and> pos s1 \<le> length (data s)"
proof -
  let ?bs = "drop (pos s) (data s)"
  have ne: "?bs \<noteq> []" using assms(2) by simp
  have s1: "s1 = s\<lparr>pos := pos s + snd (DecodeRune ?bs)\<rparr>"
    using assms by (auto simp: read_def split: prod.splits)
  from DecodeRune_width [OF ne] have "1 \<le> snd (DecodeRune ?bs)"
    and "snd (DecodeRune ?bs) \<le> length (data s) - pos s" by simp_all
  with s1 assms(2) show ?thesis by simp
qed

lemma read_not_eof: "read s = (ch, s1) \<Longrightarrow> ch \<noteq> eof \<Longrightarrow> pos s < length (data s)"
  by (auto simp: read_def split: if_splits)

lemma read_remaining:
  assumes "read s = (ch, s1)" and "ch \<noteq> eof"
  shows "remaining s1 < remaining s"
proof -
  have lt: "pos s < length (data s)" using assms by (rule read_not_eof)
  from read_advance [OF assms(1) lt] read_data [OF assms(1)] lt
  show ?thesis unfolding remaining_def by arith
qed

lemma read_remaining_sym:
  "(ch, s1) = read s \<Longrightarrow> ch \<noteq> eof \<Longrightarrow> remaining s1 < remaining s"
  using read_remaining [of s ch s1] by simp

lemma read_pos_le:
  "read s = (ch, s1) \<Longrightarrow> pos s \<le> length (data s) \<Longrightarrow> pos s1 \<le> length (data s)"
  using read_advance [of s ch s1] by (cases "pos s < length (data s)") (auto simp: read_def)

lemma unread_data: "data (unread s) = data s"
  by (simp add: unread_def)

lemma unread_maxFuncDepth: "maxFuncDepth (unread s) = maxFuncDepth s"
  by (simp add: unread_def)

lemma unread_pos: "pos (unread s) = pos s - 1"
  by (simp add: unread_def)

text \<open>
  A rune below 128 other than the end marker was decoded from a single byte, so stepping
  back one byte after reading it restores the scanner.
\<close>

lemma read_unread_ascii:
  assumes "read s = (ch, s1)" and "ch \<noteq> eof" and "ch < 128"
  shows "unread s1 = s"
proof -
  let ?bs = "drop (pos s) (data s)"
  have lt: "pos s < length (data s)" using assms read_not_eof by blast
  then have ne: "?bs \<noteq> []" by simp
  have eq: "ch = fst (DecodeRune ?bs)" "s1 = s\<lparr>pos := pos s + snd (DecodeRune ?bs)\<rparr>"
    using assms(1) lt by (auto simp: read_def split: prod.splits)
  with DecodeRune_ascii [OF ne] assms(3) have "s1 = s\<lparr>pos := pos s + 1\<rparr>" by simp
  then show ?thesis by (simp add: unread_def)
qed

lemma unread_read_remaining:
  assumes "read s = (ch, s1)" and "ch \<noteq> eof"
  shows "remaining (unread s1) \<le> remaining s"
proof -
  have lt: "pos s < length (data s)" using assms by (rule read_not_eof)
  from read_advance [OF assms(1) lt] read_data [OF assms(1)] lt
  show ?thesis unfolding remaining_def unread_data unread_pos by arith
qed

subsection \<open>Whitespace, numbers, signs and joins\<close>

text \<open>
  Each \<open>for\<close> loop of the source is a recursive function over the scanner and the loop's
  variables; it returns them as they stand when the loop is left. The loops end because a
  read that does not return the end marker moves the cursor towards the end of the buffer.
\<close>

function scanWhitespace_loop :: "Scanner \<Rightarrow> string \<Rightarrow> string \<times> Scanner" where
  "scanWhitespace_loop s buf =
     (case read s of (ch, s1) \<Rightarrow>
        if ch = eof then (buf, s1)
        else if \<not> isWhitespaceRune ch then (buf, unread s1)
        else scanWhitespace_loop s1 (buf @ EncodeRune ch))"
  by pat_completeness auto
termination
  by (relation "measure (\<lambda>(s, buf). remaining s)") (auto simp: read_remaining_sym)

declare scanWhitespace_loop.simps [simp del]

definition scanWhitespace :: "Scanner \<Rightarrow> scanned" where
  "scanWhitespace s =
     (case scanWhitespace_loop s [] of (buf, s') \<Rightarrow> (Token None TokenWS buf, None, s'))"

function scanNumber_loop :: "Scanner \<Rightarrow> string \<Rightarrow> bool \<Rightarrow> string \<times> Scanner" where
  "scanNumber_loop s buf hadDot =
     (case read s of (ch, s1) \<Rightarrow>
        if ch = eof then (buf, s1)
        else if \<not> isDigitRune ch \<and>
                (ch \<noteq> rune_of CHR ''-'' \<or> length buf \<noteq> 0) \<and>
                (ch \<noteq> rune_of CHR ''.'' \<or> hadDot)
        then (buf, unread s1)
        else scanNumber_loop s1 (buf @ EncodeRune ch)
               (if ch = rune_of CHR ''.'' then True else hadDot))"
  by pat_completeness auto
termination
  by (relation "measure (\<lambda>(s, buf, hadDot). remaining s)") (auto simp: read_remaining_sym)

declare scanNumber_loop.simps [simp del]

text \<open>
  The validity test reads \<open>literal[0]\<close> and \<open>literal[total-1]\<close>: with an empty buffer the
  first disjunct is false and \<open>literal[0]\<close> panics.
\<close>

definition scanNumber :: "Scanner \<Rightarrow> scanned" where
  "scanNumber s =
     (case scanNumber_loop s [] False of (literal, s') \<Rightarrow>
        let total = length literal in
        if total = 0 then (Token None TokenNumber literal, Some RuntimePanic, s')
        else
          let err =
            (if (total = 1 \<and> literal ! 0 = CHR ''-'') \<or> literal ! 0 = CHR ''.'' \<or>
                literal ! (total - 1) = CHR ''.''
             then Some (ErrInvalidNumber literal) else None)
          in (Token None TokenNumber literal, err, s'))"

function scanSign_loop :: "Scanner \<Rightarrow> string \<Rightarrow> string \<times> Scanner" where
  "scanSign_loop s buf =
     (case read s of (ch, s1) \<Rightarrow>
        if ch = eof then (buf, s1)
        else if \<not> isSignStartRune ch then (buf, unread s1)
        else scanSign_loop s1 (buf @ EncodeRune ch))"
  by pat_completeness auto
termination
  by (relation "measure (\<lambda>(s, buf). remaining s)") (auto simp: read_remaining_sym)

declare scanSign_loop.simps [simp del]

definition scanSign :: "Scanner \<Rightarrow> scanned" where
  "scanSign s =
     (case scanSign_loop s [] of (literal, s') \<Rightarrow>
        (Token None TokenSign literal,
         if \<not> isSignOperator literal then Some (ErrInvalidSign literal) else None, s'))"

function scanJoin_loop :: "Scanner \<Rightarrow> string \<Rightarrow> string \<times> Scanner" where
  "scanJoin_loop s buf =
     (case read s of (ch, s1) \<Rightarrow>
        if ch = eof then (buf, s1)
        else if \<not> isJoinStartRune ch then (buf, unread s1)
        else scanJoin_loop s1 (buf @ EncodeRune ch))"
  by pat_completeness auto
termination
  by (relation "measure (\<lambda>(s, buf). remaining s)") (auto simp: read_remaining_sym)

declare scanJoin_loop.simps [simp del]

definition scanJoin :: "Scanner \<Rightarrow> scanned" where
  "scanJoin s =
     (case scanJoin_loop s [] of (literal, s') \<Rightarrow>
        (Token None TokenJoin literal,
         if \<not> isJoinOperator literal then Some (ErrInvalidJoin literal) else None, s'))"

subsection \<open>Quoted text\<close>

text \<open>
  \<open>strings.ReplaceAll(s, old, new)\<close> for a non-empty \<open>old\<close>: the occurrences of \<open>old\<close>
  are found from left to right without overlap. The counter is the number of bytes of the
  current occurrence still to be skipped. The scanner calls it with a pattern that starts
  with a backslash; the case of an empty pattern is left out.
\<close>

fun replaceFrom :: "string \<Rightarrow> string \<Rightarrow> nat \<Rightarrow> string \<Rightarrow> string" where
  "replaceFrom old new k [] = []"
| "replaceFrom old new (Suc k) (c # cs) = replaceFrom old new k cs"
| "replaceFrom old new 0 (c # cs) =
     (if take (length old) (c # cs) = old
      then new @ replaceFrom old new (length old - 1) cs
      else c # replaceFrom old new 0 cs)"

fun ReplaceAll :: "string \<Rightarrow> string \<Rightarrow> string \<Rightarrow> string" where
  "ReplaceAll s (c # old) new = replaceFrom (c # old) new 0 s"

function scanText_loop :: "Scanner \<Rightarrow> string \<Rightarrow> rune \<Rightarrow> rune \<Rightarrow> string \<times> bool \<times> Scanner" where
  "scanText_loop s buf firstCh prevCh =
     (case read s of (ch, s1) \<Rightarrow>
        if ch = eof then (buf, False, s1)
        else if ch = firstCh \<and> prevCh \<noteq> rune_of CHR 0x5C then (buf @ EncodeRune ch, True, s1)
        else scanText_loop s1 (buf @ EncodeRune ch) firstCh ch)"
  by pat_completeness auto
termination
  by (relation "measure (\<lambda>(s, buf, firstCh, prevCh). remaining s)")
     (auto simp: read_remaining_sym)

declare scanText_loop.simps [simp del]

text \<open>
  \<open>prevCh\<close> starts as the zero rune. The slice \<open>literal[1 : len(literal)-1]\<close> panics when
  the literal has fewer than two bytes.
\<close>

definition scanText :: "bool \<Rightarrow> Scanner \<Rightarrow> scanned" where
  "scanText preserveQuotes s =
     (case read s of (firstCh, s0) \<Rightarrow>
      case scanText_loop s0 (EncodeRune firstCh) firstCh 0 of
        (literal, hasMatchingQuotes, s') \<Rightarrow>
          if \<not> hasMatchingQuotes then
            (Token None TokenText literal, Some (ErrInvalidQuotedText literal), s')
          else if \<not> preserveQuotes then
            (if length literal < 2 then (Token None TokenText literal, Some RuntimePanic, s')
             else
               let unquoted = take (length literal - 1 - 1) (drop 1 literal);
                   firstChStr = EncodeRune firstCh
               in (Token None TokenText (ReplaceAll unquoted (CHR 0x5C # firstChStr) firstChStr),
                   None, s'))
          else (Token None TokenText literal, None, s'))"

subsection \<open>Comments\<close>

text \<open>\<open>unicode.IsSpace\<close>, the predicate of \<open>strings.TrimSpace\<close>.\<close>

definition isSpace :: "rune \<Rightarrow> bool" where
  "isSpace r =
     ((9 \<le> r \<and> r \<le> 13) \<or> r = 32 \<or> r = 133 \<or> r = 160 \<or> r = 5760 \<or>
      (8192 \<le> r \<and> r \<le> 8202) \<or> r = 8232 \<or> r = 8233 \<or> r = 8239 \<or> r = 8287 \<or> r = 12288)"

text \<open>
  \<open>utf8.DecodeLastRune\<close>: the rune that ends a byte slice. It steps back to the nearest
  byte within the last four that can start an encoding (one not of the form 10xxxxxx) and
  decodes from there; the result counts only if it reaches the end of the slice.
\<close>

definition RuneStart :: "char \<Rightarrow> bool" where
  "RuneStart b = (\<not> (128 \<le> rune_of b \<and> rune_of b < 192))"

definition DecodeLastRune :: "string \<Rightarrow> rune \<times> nat" where
  "DecodeLastRune p =
     (let e = length p in
      if e = 0 then (RuneError, 0)
      else
        let r = rune_of (p ! (e - 1)) in
        if r < 128 then (r, 1)
        else
          let lim = e - 4;
              start = (case filter (\<lambda>i. RuneStart (p ! i)) (rev [lim ..< e - 1]) of
                         i # _ \<Rightarrow> i | [] \<Rightarrow> lim - 1)
          in case DecodeRune (drop start p) of
               (r, sz) \<Rightarrow> if start + sz \<noteq> e then (RuneError, 1) else (r, sz))"

lemma DecodeLastRune_width: "p \<noteq> [] \<Longrightarrow> 1 \<le> snd (DecodeLastRune p)"
proof -
  assume ne: "p \<noteq> []"
  have "start < length p \<Longrightarrow> start + snd (DecodeRune (drop start p)) = length p \<Longrightarrow>
          1 \<le> snd (DecodeRune (drop start p))" for start
    by (cases "snd (DecodeRune (drop start p))") auto
  moreover have "(case filter (\<lambda>i. RuneStart (p ! i)) (rev [length p - 4 ..< length p - 1]) of
                    i # _ \<Rightarrow> i | [] \<Rightarrow> length p - 4 - 1) < length p"
  proof (cases "filter (\<lambda>i. RuneStart (p ! i)) (rev [length p - 4 ..< length p - 1])")
    case Nil
    then show ?thesis using ne by (cases p) auto
  next
    case (Cons i rest)
    then have "i \<in> set (filter (\<lambda>i. RuneStart (p ! i)) (rev [length p - 4 ..< length p - 1]))"
      by simp
    then have "i < length p" by auto
    with Cons show ?thesis by simp
  qed
  ultimately show ?thesis
    using ne by (auto simp: DecodeLastRune_def Let_def split: prod.splits)
qed

lemma DecodeRune_width_pos: "(r, n) = DecodeRune bs \<Longrightarrow> bs \<noteq> [] \<Longrightarrow> 0 < n"
  using DecodeRune_width [of bs] by (cases "DecodeRune bs") auto

lemma DecodeLastRune_width_pos: "(r, n) = DecodeLastRune bs \<Longrightarrow> bs \<noteq> [] \<Longrightarrow> 0 < n"
  using DecodeLastRune_width [of bs] by (cases "DecodeLastRune bs") auto

function trimLeftSpace :: "string \<Rightarrow> string" where
  "trimLeftSpace bs =
     (if bs = [] then []
      else case DecodeRune bs of
             (r, n) \<Rightarrow> if isSpace r then trimLeftSpace (drop n bs) else bs)"
  by pat_completeness auto
termination
  by (relation "measure length") (auto dest: DecodeRune_width_pos)

declare trimLeftSpace.simps [simp del]

function trimRightSpace :: "string \<Rightarrow> string" where
  "trimRightSpace bs =
     (if bs = [] then []
      else case DecodeLastRune bs of
             (r, n) \<Rightarrow> if isSpace r then trimRightSpace (take (length bs - n) bs) else bs)"
  by pat_completeness auto
termination
  by (relation "measure length") (auto dest: DecodeLastRune_width_pos)

declare trimRightSpace.simps [simp del]

definition TrimSpace :: "string \<Rightarrow> string" where
  "TrimSpace bs = trimRightSpace (trimLeftSpace bs)"

function scanComment_loop :: "Scanner \<Rightarrow> string \<Rightarrow> string \<times> Scanner" where
  "scanComment_loop s buf =
     (case read s of (ch, s1) \<Rightarrow>
        if ch = eof \<or> ch = 10 then (buf, s1)
        else scanComment_loop s1 (buf @ EncodeRune ch))"
  by pat_completeness auto
termination
  by (relation "measure (\<lambda>(s, buf). remaining s)") (auto simp: read_remaining_sym)

declare scanComment_loop.simps [simp del]

text \<open>
  The second read happens only when the first rune is a slash (\<open>||\<close> evaluates its right
  operand only then). \<open>ErrInvalidComment\<close> is a package-level error value.
\<close>

definition scanComment :: "Scanner \<Rightarrow> scanned" where
  "scanComment s =
     (case read s of (c1, s1) \<Rightarrow>
        if \<not> isCommentStartRune c1 then (Token None TokenComment [], Some ErrInvalidComment, s1)
        else case read s1 of (c2, s2) \<Rightarrow>
          if \<not> isCommentStartRune c2 then (Token None TokenComment [], Some ErrInvalidComment, s2)
          else case scanComment_loop s2 [] of
                 (buf, s3) \<Rightarrow> (Token None TokenComment (TrimSpace buf), None, s3))"

subsection \<open>Every scan moves the cursor forward, inside the buffer\<close>

text \<open>
  \<open>advances s s'\<close>: the scans leave the buffer and the depth ceiling alone, never move the
  cursor back past where they started, and keep it inside the buffer.
\<close>

definition advances :: "Scanner \<Rightarrow> Scanner \<Rightarrow> bool" where
  "advances s s' =
     (data s' = data s \<and> maxFuncDepth s' = maxFuncDepth s \<and> pos s \<le> pos s' \<and>
      (pos s \<le> length (data s) \<longrightarrow> pos s' \<le> length (data s)))"

lemma advances_refl: "advances s s"
  by (simp add: advances_def)

lemma advances_trans: "advances s s1 \<Longrightarrow> advances s1 s2 \<Longrightarrow> advances s s2"
  by (auto simp: advances_def)

lemma read_advances: "read s = (ch, s1) \<Longrightarrow> advances s s1"
  using read_data [of s ch s1] read_maxFuncDepth [of s ch s1] read_pos_mono [of s ch s1]
    read_pos_le [of s ch s1]
  by (simp add: advances_def)

lemma read_unread_advances:
  assumes "read s = (ch, s1)" and "ch \<noteq> eof"
  shows "advances s (unread s1)"
proof -
  have lt: "pos s < length (data s)" using assms by (rule read_not_eof)
  from read_advance [OF assms(1) lt] read_data [OF assms(1)] read_maxFuncDepth [OF assms(1)]
  show ?thesis by (auto simp: advances_def unread_data unread_pos unread_maxFuncDepth)
qed

lemma scanWhitespace_loop_advances: "scanWhitespace_loop s buf = (b, s') \<Longrightarrow> advances s s'"
proof (induction s buf rule: scanWhitespace_loop.induct)
  case (1 s buf)
  obtain ch s1 where r: "read s = (ch, s1)" by (cases "read s")
  show ?case
  proof (cases "ch \<noteq> eof \<and> isWhitespaceRune ch")
    case True
    then have "scanWhitespace_loop s1 (buf @ EncodeRune ch) = (b, s')"
      using "1.prems" r by (auto simp: scanWhitespace_loop.simps [of s] split: if_splits)
    then have "advances s1 s'" using "1.IH" r True by simp
    with read_advances [OF r] show ?thesis by (rule advances_trans)
  next
    case False
    then show ?thesis
      using "1.prems" r read_advances [OF r] read_unread_advances [OF r]
      by (auto simp: scanWhitespace_loop.simps [of s] split: if_splits)
  qed
qed


lemma scanSign_loop_advances: "scanSign_loop s buf = (b, s') \<Longrightarrow> advances s s'"
proof (induction s buf rule: scanSign_loop.induct)
  case (1 s buf)
  obtain ch s1 where r: "read s = (ch, s1)" by (cases "read s")
  show ?case
  proof (cases "ch \<noteq> eof \<and> isSignStartRune ch")
    case True
    then have "scanSign_loop s1 (buf @ EncodeRune ch) = (b, s')"
      using "1.prems" r by (auto simp: scanSign_loop.simps [of s] split: if_splits)
    then have "advances s1 s'" using "1.IH" r True by simp
    with read_advances [OF r] show ?thesis by (rule advances_trans)
  next
    case False
    then show ?thesis
      using "1.prems" r read_advances [OF r] read_unread_advances [OF r]
      by (auto simp: scanSign_loop.simps [of s] split: if_splits)
  qed
qed

lemma scanJoin_loop_advances: "scanJoin_loop s buf = (b, s') \<Longrightarrow> advances s s'"
proof (induction s buf rule: scanJoin_loop.induct)
  case (1 s buf)
  obtain ch s1 where r: "read s = (ch, s1)" by (cases "read s")
  show ?case
  proof (cases "ch \<noteq> eof \<and> isJoinStartRune ch")
    case True
    then have "scanJoin_loop s1 (buf @ EncodeRune ch) = (b, s')"
      using "1.prems" r by (auto simp: scanJoin_loop.simps [of s] split: if_splits)
    then have "advances s1 s'" using "1.IH" r True by simp
    with read_advances [OF r] show ?thesis by (rule advances_trans)
  next
    case False
    then show ?thesis
      using "1.prems" r read_advances [OF r] read_unread_advances [OF r]
      by (auto simp: scanJoin_loop.simps [of s] split: if_splits)
  qed
qed

lemma scanComment_loop_advances: "scanComment_loop s buf = (b, s') \<Longrightarrow> advances s s'"
proof (induction s buf rule: scanComment_loop.induct)
  case (1 s buf)
  obtain ch s1 where r: "read s = (ch, s1)" by (cases "read s")
  show ?case
  proof (cases "ch \<noteq> eof \<and> ch \<noteq> 10")
    case True
    then have "scanComment_loop s1 (buf @ EncodeRune ch) = (b, s')"
      using "1.prems" r by (auto simp: scanComment_loop.simps [of s] split: if_splits)
    then have "advances s1 s'" using "1.IH" r True by simp
    with read_advances [OF r] show ?thesis by (rule advances_trans)
  next
    case False
    then show ?thesis
      using "1.prems" r read_advances [OF r] read_unread_advances [OF r]
      by (auto simp: scanComment_loop.simps [of s] split: if_splits)
  qed
qed

lemma scanNumber_loop_advances: "scanNumber_loop s buf hadDot = (b, s') \<Longrightarrow> advances s s'"
proof (induction s buf hadDot rule: scanNumber_loop.induct)
  case (1 s buf hadDot)
  obtain ch s1 where r: "read s = (ch, s1)" by (cases "read s")
  show ?case
  proof (cases "ch \<noteq> eof \<and> \<not> (\<not> isDigitRune ch \<and> (ch \<noteq> rune_of CHR ''-'' \<or> length buf \<noteq> 0) \<and> (ch \<noteq> rune_of CHR ''.'' \<or> hadDot))")
    case True
    then have "scanNumber_loop s1 (buf @ EncodeRune ch) (if ch = rune_of CHR ''.'' then True else hadDot) = (b, s')"
      using "1.prems" r by (auto simp: scanNumber_loop.simps [of s] split: if_splits)
    then have "advances s1 s'" using "1.IH" r True by simp
    with read_advances [OF r] show ?thesis by (rule advances_trans)
  next
    case False
    then show ?thesis
      using "1.prems" r read_advances [OF r] read_unread_advances [OF r]
      by (auto simp: scanNumber_loop.simps [of s] split: if_splits)
  qed
qed

lemma scanText_loop_advances:
  "scanText_loop s buf firstCh prevCh = (b, m, s') \<Longrightarrow> advances s s'"
proof (induction s buf firstCh prevCh rule: scanText_loop.induct)
  case (1 s buf firstCh prevCh)
  obtain ch s1 where r: "read s = (ch, s1)" by (cases "read s")
  show ?case
  proof (cases "ch \<noteq> eof \<and> \<not> (ch = firstCh \<and> prevCh \<noteq> rune_of CHR 0x5C)")
    case True
    then have "scanText_loop s1 (buf @ EncodeRune ch) firstCh ch = (b, m, s')"
      using "1.prems" r by (auto simp: scanText_loop.simps [of s] split: if_splits)
    then have "advances s1 s'" using "1.IH" r True by simp
    with read_advances [OF r] show ?thesis by (rule advances_trans)
  next
    case False
    then show ?thesis
      using "1.prems" r read_advances [OF r]
      by (auto simp: scanText_loop.simps [of s] split: if_splits)
  qed
qed

lemma scanWhitespace_advances: "scanWhitespace s = (t, e, s') \<Longrightarrow> advances s s'"
  by (auto simp: scanWhitespace_def split: prod.splits dest: scanWhitespace_loop_advances)

lemma scanNumber_advances: "scanNumber s = (t, e, s') \<Longrightarrow> advances s s'"
  by (auto simp: scanNumber_def Let_def split: prod.splits if_splits
           dest: scanNumber_loop_advances)

lemma scanSign_advances: "scanSign s = (t, e, s') \<Longrightarrow> advances s s'"
  by (auto simp: scanSign_def split: prod.splits dest: scanSign_loop_advances)

lemma scanJoin_advances: "scanJoin s = (t, e, s') \<Longrightarrow> advances s s'"
  by (auto simp: scanJoin_def split: prod.splits dest: scanJoin_loop_advances)

lemma scanText_advances:
  assumes "scanText q s = (t, e, s')"
  shows "advances s s'"
proof -
  obtain firstCh s0 where r: "read s = (firstCh, s0)" by (cases "read s")
  obtain lit m s2 where l: "scanText_loop s0 (EncodeRune firstCh) firstCh 0 = (lit, m, s2)"
    by (cases "scanText_loop s0 (EncodeRune firstCh) firstCh 0")
  have "s' = s2" using assms r l by (auto simp: scanText_def Let_def split: if_splits)
  with read_advances [OF r] scanText_loop_advances [OF l] show ?thesis
    by (auto intro: advances_trans)
qed

lemma scanComment_advances:
  assumes "scanComment s = (t, e, s')"
  shows "advances s s'"
proof -
  obtain c1 s1 where r1: "read s = (c1, s1)" by (cases "read s")
  obtain c2 s2 where r2: "read s1 = (c2, s2)" by (cases "read s1")
  obtain buf s3 where l: "scanComment_loop s2 [] = (buf, s3)" by (cases "scanComment_loop s2 []")
  have "s' = s1 \<or> s' = s2 \<or> s' = s3"
    using assms r1 r2 l by (auto simp: scanComment_def split: if_splits)
  with read_advances [OF r1] read_advances [OF r2] scanComment_loop_advances [OF l]
  show ?thesis by (auto intro: advances_trans)
qed

text \<open>Where the first read is unconditional, a scan that starts before the end moves on.\<close>

lemma advances_strict:
  "read s = (ch, s1) \<Longrightarrow> advances s1 s' \<Longrightarrow> pos s < length (data s) \<Longrightarrow> pos s < pos s'"
  using read_advance [of s ch s1] by (auto simp: advances_def)

lemma scanText_strict:
  assumes "scanText q s = (t, e, s')" and "pos s < length (data s)"
  shows "pos s < pos s'"
proof -
  obtain firstCh s0 where r: "read s = (firstCh, s0)" by (cases "read s")
  obtain lit m s2 where l: "scanText_loop s0 (EncodeRune firstCh) firstCh 0 = (lit, m, s2)"
    by (cases "scanText_loop s0 (EncodeRune firstCh) firstCh 0")
  have "s' = s2" using assms r l by (auto simp: scanText_def Let_def split: if_splits)
  with advances_strict [OF r scanText_loop_advances [OF l] assms(2)] show ?thesis by simp
qed

lemma scanComment_strict:
  assumes "scanComment s = (t, e, s')" and "pos s < length (data s)"
  shows "pos s < pos s'"
proof -
  obtain c1 s1 where r1: "read s = (c1, s1)" by (cases "read s")
  obtain c2 s2 where r2: "read s1 = (c2, s2)" by (cases "read s1")
  obtain buf s3 where l: "scanComment_loop s2 [] = (buf, s3)" by (cases "scanComment_loop s2 []")
  have "s' = s1 \<or> s' = s2 \<or> s' = s3"
    using assms r1 r2 l by (auto simp: scanComment_def split: if_splits)
  moreover have "advances s1 s1" "advances s1 s2" "advances s1 s3"
    using read_advances [OF r2] scanComment_loop_advances [OF l]
    by (auto intro: advances_refl advances_trans)
  ultimately show ?thesis using advances_strict [OF r1 _ assms(2)] by auto
qed

text \<open>
  The loops that test a rune before they keep it move on when the rune at the cursor is
  one they keep.
\<close>

lemma scanNumber_strict:
  assumes "scanNumber s = (t, e, s')" and "read s = (ch, s1)" and "ch \<noteq> eof"
    and "isNumberStartRune ch"
  shows "pos s < pos s'"
proof -
  have "scanNumber_loop s [] False = scanNumber_loop s1 (EncodeRune ch) (if ch = rune_of CHR ''.'' then True else False)"
    using assms(2-4) by (auto simp: scanNumber_loop.simps [of s] isNumberStartRune_def)
  moreover obtain lit s2 where l: "scanNumber_loop s1 (EncodeRune ch) (if ch = rune_of CHR ''.'' then True else False) = (lit, s2)"
    by (cases "scanNumber_loop s1 (EncodeRune ch) (if ch = rune_of CHR ''.'' then True else False)")
  ultimately have "s' = s2" using assms(1) by (auto simp: scanNumber_def Let_def split: if_splits)
  with advances_strict [OF assms(2) scanNumber_loop_advances [OF l]] read_not_eof [OF assms(2,3)]
  show ?thesis by simp
qed

lemma scanWhitespace_strict:
  assumes "scanWhitespace s = (t, e, s')" and "read s = (ch, s1)" and "ch \<noteq> eof"
    and "isWhitespaceRune ch"
  shows "pos s < pos s'"
proof -
  have "scanWhitespace_loop s [] = scanWhitespace_loop s1 (EncodeRune ch)"
    using assms(2-4) by (auto simp: scanWhitespace_loop.simps [of s])
  moreover obtain lit s2 where l: "scanWhitespace_loop s1 (EncodeRune ch) = (lit, s2)"
    by (cases "scanWhitespace_loop s1 (EncodeRune ch)")
  ultimately have "s' = s2" using assms(1) by (auto simp: scanWhitespace_def)
  with advances_strict [OF assms(2) scanWhitespace_loop_advances [OF l]] read_not_eof [OF assms(2,3)]
  show ?thesis by simp
qed

lemma scanSign_strict:
  assumes "scanSign s = (t, e, s')" and "read s = (ch, s1)" and "ch \<noteq> eof"
    and "isSignStartRune ch"
  shows "pos s < pos s'"
proof -
  have "scanSign_loop s [] = scanSign_loop s1 (EncodeRune ch)"
    using assms(2-4) by (auto simp: scanSign_loop.simps [of s])
  moreover obtain lit s2 where l: "scanSign_loop s1 (EncodeRune ch) = (lit, s2)"
    by (cases "scanSign_loop s1 (EncodeRune ch)")
  ultimately have "s' = s2" using assms(1) by (auto simp: scanSign_def)
  with advances_strict [OF assms(2) scanSign_loop_advances [OF l]] read_not_eof [OF assms(2,3)]
  show ?thesis by simp
qed

lemma scanJoin_strict:
  assumes "scanJoin s = (t, e, s')" and "read s = (ch, s1)" and "ch \<noteq> eof"
    and "isJoinStartRune ch"
  shows "pos s < pos s'"
proof -
  have "scanJoin_loop s [] = scanJoin_loop s1 (EncodeRune ch)"
    using assms(2-4) by (auto simp: scanJoin_loop.simps [of s])
  moreover obtain lit s2 where l: "scanJoin_loop s1 (EncodeRune ch) = (lit, s2)"
    by (cases "scanJoin_loop s1 (EncodeRune ch)")
  ultimately have "s' = s2" using assms(1) by (auto simp: scanJoin_def)
  with advances_strict [OF assms(2) scanJoin_loop_advances [OF l]] read_not_eof [OF assms(2,3)]
  show ?thesis by simp
qed

lemma scanText_unread_remaining:
  assumes "(ch, s1) = read s" and "ch \<noteq> eof" and "isTextStartRune ch"
    and "(t, e, s2) = scanText q (unread s1)"
  shows "remaining s2 < remaining s"
proof -
  have r: "read s = (ch, s1)" using assms(1) by simp
  have u: "unread s1 = s" using read_unread_ascii [OF r assms(2)] assms(3)
    by (auto simp: isTextStartRune_def)
  have lt: "pos s < length (data s)" using r assms(2) by (rule read_not_eof)
  have st: "scanText q s = (t, e, s2)" using assms(4) u by simp
  from scanText_strict [OF st lt] scanText_advances [OF st] lt
  show ?thesis by (auto simp: remaining_def advances_def)
qed

subsection \<open>Groups\<close>

text \<open>
  The loop of \<open>scanGroup\<close> has two ways out: the \<open>return\<close> inside it, when the quoted
  text it delegates to fails (\<open>Inl\<close>, the token and error returned), and the \<open>break\<close>s
  (\<open>Inr\<close>, the buffer and the counter of open groups as they stand).
\<close>

function scanGroup_loop ::
  "Scanner \<Rightarrow> string \<Rightarrow> int \<Rightarrow> scanned + string \<times> int \<times> Scanner" where
  "scanGroup_loop s buf openGroups =
     (case read s of (ch, s1) \<Rightarrow>
        if ch = eof then Inr (buf, openGroups, s1)
        else if isGroupStartRune ch then scanGroup_loop s1 (buf @ EncodeRune ch) (openGroups + 1)
        else if isTextStartRune ch then
          (case scanText True (unread s1) of (t, err, s2) \<Rightarrow>
             if err \<noteq> None then Inl (Token None TokenGroup (buf @ Literal t), err, s2)
             else scanGroup_loop s2 (buf @ Literal t) openGroups)
        else if ch = rune_of CHR '')'' then
          (if openGroups - 1 \<le> 0 then Inr (buf, openGroups - 1, s1)
           else scanGroup_loop s1 (buf @ EncodeRune ch) (openGroups - 1))
        else scanGroup_loop s1 (buf @ EncodeRune ch) openGroups)"
  by pat_completeness auto
termination
  by (relation "measure (\<lambda>(s, buf, openGroups). remaining s)")
     (auto simp: read_remaining_sym scanText_unread_remaining)

declare scanGroup_loop.simps [simp del]

definition scanGroup :: "Scanner \<Rightarrow> scanned" where
  "scanGroup s =
     (case read s of (firstChar, s0) \<Rightarrow>
      (case scanGroup_loop s0 [] 1 of
         Inl r \<Rightarrow> r
       | Inr (literal, openGroups, s') \<Rightarrow>
           (Token None TokenGroup literal,
            if \<not> isGroupStartRune firstChar \<or> openGroups > 0
            then Some (ErrMissingClosingBrackets openGroups) else None,
            s')))"

subsection \<open>Identifiers and function calls\<close>

text \<open>The end of \<open>scanIdentifier\<close>, after its loop: the identifier token and its validity.\<close>

definition identifierToken :: "string \<Rightarrow> Scanner \<Rightarrow> scanned" where
  "identifierToken literal s =
     (Token None TokenIdentifier literal,
      (case isValidIdentifier literal of
         None \<Rightarrow> Some RuntimePanic
       | Some valid \<Rightarrow> if \<not> valid then Some (ErrInvalidIdentifier literal) else None),
      s)"

text \<open>
  \<open>scanIdentifier\<close> and \<open>scanFunctionArgs\<close> call each other, each with its loop. The
  arguments are collected in \<open>args\<close> (\<open>Some args\<close> in the token, also for the empty
  slice); the error returns before the loop of \<open>scanFunctionArgs\<close> leave \<open>Meta\<close> unset.
\<close>

function scanIdentifier :: "int \<Rightarrow> Scanner \<Rightarrow> scanned"
  and scanIdentifier_loop :: "int \<Rightarrow> Scanner \<Rightarrow> string \<Rightarrow> scanned"
  and scanFunctionArgs :: "string \<Rightarrow> int \<Rightarrow> Scanner \<Rightarrow> scanned"
  and scanFunctionArgs_loop :: "string \<Rightarrow> int \<Rightarrow> Scanner \<Rightarrow> Token list \<Rightarrow> bool \<Rightarrow> scanned"
where
  "scanIdentifier funcDepth s =
     (case read s of (ch, s0) \<Rightarrow> scanIdentifier_loop funcDepth s0 (EncodeRune ch))"
| "scanIdentifier_loop funcDepth s buf =
     (case read s of (ch, s1) \<Rightarrow>
        if ch = eof then identifierToken buf s1
        else if ch = rune_of CHR ''('' then
          (if funcDepth \<le> 0 then
             (Token None TokenFunction buf, Some (ErrMaxNestedFunc (maxFuncDepth s1)), s1)
           else case isValidIdentifier buf of
                  None \<Rightarrow> (Token None TokenFunction buf, Some RuntimePanic, s1)
                | Some valid \<Rightarrow>
                    if \<not> valid then
                      (Token None TokenFunction buf, Some (ErrInvalidFuncName buf), s1)
                    else scanFunctionArgs buf funcDepth (unread s1))
        else if \<not> isLetterRune ch \<and> \<not> isDigitRune ch \<and> \<not> isIdentifierCombineRune ch \<and>
                ch \<noteq> rune_of CHR ''_''
        then identifierToken buf (unread s1)
        else scanIdentifier_loop funcDepth s1 (buf @ EncodeRune ch))"
| "scanFunctionArgs funcName funcDepth s =
     (case read s of (ch, s1) \<Rightarrow>
        if ch \<noteq> rune_of CHR ''('' then
          (Token None TokenFunction funcName, Some (ErrIncompleteFuncCall funcName), s1)
        else scanFunctionArgs_loop funcName funcDepth s1 [] False)"
| "scanFunctionArgs_loop funcName funcDepth s args expectComma =
     (case read s of (ch, s1) \<Rightarrow>
        if ch = eof then
          (Token (Some args) TokenFunction funcName, Some (ErrIncompleteFunc funcName), s1)
        else if ch = rune_of CHR '')'' then (Token (Some args) TokenFunction funcName, None, s1)
        else if isWhitespaceRune ch then
          (case scanWhitespace s1 of (t, err, s2) \<Rightarrow>
             (case err of
                Some e \<Rightarrow>
                  (Token (Some args) TokenFunction funcName, Some (ErrFuncWhitespace funcName e), s2)
              | None \<Rightarrow> scanFunctionArgs_loop funcName funcDepth s2 args expectComma))
        else if isCommentStartRune ch then
          (case scanComment (unread s1) of (t, err, s2) \<Rightarrow>
             (case err of
                Some e \<Rightarrow>
                  (Token (Some args) TokenFunction funcName, Some (ErrFuncComment funcName e), s2)
              | None \<Rightarrow> scanFunctionArgs_loop funcName funcDepth s2 args expectComma))
        else
          let isComma = (ch = rune_of CHR '','') in
          if expectComma \<and> \<not> isComma then
            (Token (Some args) TokenFunction funcName, Some (ErrExpectedComma funcName), s1)
          else if \<not> expectComma \<and> isComma then
            (Token (Some args) TokenFunction funcName, Some (ErrUnexpectedComma funcName), s1)
          else if isComma then scanFunctionArgs_loop funcName funcDepth s1 args False
          else if isIdentifierStartRune ch then
            (case scanIdentifier (funcDepth - 1) (unread s1) of (t, err, s2) \<Rightarrow>
               (case err of
                  Some e \<Rightarrow>
                    (Token (Some args) TokenFunction funcName,
                     Some (ErrInvalidIdentifierArg (Literal t) funcName e), s2)
                | None \<Rightarrow> scanFunctionArgs_loop funcName funcDepth s2 (args @ [t]) True))
          else if isNumberStartRune ch then
            (case scanNumber (unread s1) of (t, err, s2) \<Rightarrow>
               (case err of
                  Some e \<Rightarrow>
                    (Token (Some args) TokenFunction funcName,
                     Some (ErrInvalidNumberArg (Literal t) funcName e), s2)
                | None \<Rightarrow> scanFunctionArgs_loop funcName funcDepth s2 (args @ [t]) True))
          else if isTextStartRune ch then
            (case scanText False (unread s1) of (t, err, s2) \<Rightarrow>
               (case err of
                  Some e \<Rightarrow>
                    (Token (Some args) TokenFunction funcName,
                     Some (ErrInvalidTextArg (Literal t) funcName e), s2)
                | None \<Rightarrow> scanFunctionArgs_loop funcName funcDepth s2 (args @ [t]) True))
          else
            (Token (Some args) TokenFunction funcName,
             Some (ErrUnsupportedArgChar ch funcName), s1))"
  by pat_completeness auto



text \<open>
  The loop of \<open>scanFunctionArgs\<close> goes on from where a nested \<open>scanIdentifier\<close> stopped,
  so its termination rests on a property of that result: wherever the functions are
  defined, they move the cursor forward.
\<close>

lemma scanIdentifier_dom_advances:
  "scanIdentifier_scanIdentifier_loop_scanFunctionArgs_scanFunctionArgs_loop_dom
     (Inl (Inl (funcDepth, s))) \<Longrightarrow>
   \<forall>t e s'. scanIdentifier funcDepth s = (t, e, s') \<longrightarrow>
     advances s s' \<and> (pos s < length (data s) \<longrightarrow> pos s < pos s')"
  "scanIdentifier_scanIdentifier_loop_scanFunctionArgs_scanFunctionArgs_loop_dom
     (Inl (Inr (funcDepth, s, buf))) \<Longrightarrow>
   \<forall>t e s'. scanIdentifier_loop funcDepth s buf = (t, e, s') \<longrightarrow> advances s s'"
  "scanIdentifier_scanIdentifier_loop_scanFunctionArgs_scanFunctionArgs_loop_dom
     (Inr (Inl (funcName, funcDepth, s))) \<Longrightarrow>
   \<forall>t e s'. scanFunctionArgs funcName funcDepth s = (t, e, s') \<longrightarrow> advances s s'"
  "scanIdentifier_scanIdentifier_loop_scanFunctionArgs_scanFunctionArgs_loop_dom
     (Inr (Inr (funcName, funcDepth, s, args, expectComma))) \<Longrightarrow>
   \<forall>t e s'. scanFunctionArgs_loop funcName funcDepth s args expectComma = (t, e, s') \<longrightarrow>
     advances s s'"
proof (induction funcDepth s and funcDepth s buf and funcName funcDepth s
    and funcName funcDepth s args expectComma
    rule: scanIdentifier_scanIdentifier_loop_scanFunctionArgs_scanFunctionArgs_loop.pinduct)
  case (1 funcDepth s)
  note eq = scanIdentifier.psimps [OF "1.hyps"]
  obtain ch s0 where r: "read s = (ch, s0)" by (cases "read s")
  from "1.IH" [OF r [symmetric]] read_advances [OF r] advances_strict [OF r] r show ?case
    by (auto simp: eq intro: advances_trans)
next
  case (2 funcDepth s buf)
  note eq = scanIdentifier_loop.psimps [OF "2.hyps"]
  obtain ch s1 where r: "read s = (ch, s1)" by (cases "read s")
  note a = read_advances [OF r] and b = read_unread_advances [OF r]
  show ?case using "2.IH" [OF r [symmetric]] a b r
    by (auto simp: eq identifierToken_def split: if_splits option.splits
             intro: advances_trans)
next
  case (3 funcName funcDepth s)
  note eq = scanFunctionArgs.psimps [OF "3.hyps"]
  obtain ch s1 where r: "read s = (ch, s1)" by (cases "read s")
  from "3.IH" [OF r [symmetric]] read_advances [OF r] r show ?case
    by (auto simp: eq split: if_splits intro: advances_trans)
next
  case (4 funcName funcDepth s args expectComma)
  note eq = scanFunctionArgs_loop.psimps [OF "4.hyps"]
  obtain ch s1 where r: "read s = (ch, s1)" by (cases "read s")
  note a = read_advances [OF r] and b = read_unread_advances [OF r]
  note IH = "4.IH" [OF r [symmetric]]
  show ?case
  proof (intro allI impI)
    fix t e s'
    assume res: "scanFunctionArgs_loop funcName funcDepth s args expectComma = (t, e, s')"
    note res' = res [unfolded eq]
    consider (stop) "ch = eof \<or> ch = rune_of CHR '')''"
      | (ws) "ch \<noteq> eof" "ch \<noteq> rune_of CHR '')''" "isWhitespaceRune ch"
      | (comment) "ch \<noteq> eof" "ch \<noteq> rune_of CHR '')''" "\<not> isWhitespaceRune ch"
          "isCommentStartRune ch"
      | (comma) "ch \<noteq> eof" "ch \<noteq> rune_of CHR '')''" "\<not> isWhitespaceRune ch"
          "\<not> isCommentStartRune ch" "ch = rune_of CHR '',''"
      | (badcomma) "ch \<noteq> eof" "ch \<noteq> rune_of CHR '')''" "\<not> isWhitespaceRune ch"
          "\<not> isCommentStartRune ch" "ch \<noteq> rune_of CHR '',''" "expectComma"
      | (ident) "ch \<noteq> eof" "ch \<noteq> rune_of CHR '')''" "\<not> isWhitespaceRune ch"
          "\<not> isCommentStartRune ch" "ch \<noteq> rune_of CHR '',''" "\<not> expectComma"
          "isIdentifierStartRune ch"
      | (number) "ch \<noteq> eof" "ch \<noteq> rune_of CHR '')''" "\<not> isWhitespaceRune ch"
          "\<not> isCommentStartRune ch" "ch \<noteq> rune_of CHR '',''" "\<not> expectComma"
          "\<not> isIdentifierStartRune ch" "isNumberStartRune ch"
      | (quoted) "ch \<noteq> eof" "ch \<noteq> rune_of CHR '')''" "\<not> isWhitespaceRune ch"
          "\<not> isCommentStartRune ch" "ch \<noteq> rune_of CHR '',''" "\<not> expectComma"
          "\<not> isIdentifierStartRune ch" "\<not> isNumberStartRune ch" "isTextStartRune ch"
      | (other) "ch \<noteq> eof" "ch \<noteq> rune_of CHR '')''" "\<not> isWhitespaceRune ch"
          "\<not> isCommentStartRune ch" "ch \<noteq> rune_of CHR '',''" "\<not> expectComma"
          "\<not> isIdentifierStartRune ch" "\<not> isNumberStartRune ch" "\<not> isTextStartRune ch"
      by blast
    then show "advances s s'"
    proof cases
      case stop
      then have "s' = s1" using res' r by (auto simp: eof_def)
      with a show ?thesis by simp
    next
      case ws
      obtain t2 e2 s2 where w: "scanWhitespace s1 = (t2, e2, s2)" by (cases "scanWhitespace s1")
      have a2: "advances s s2" using a scanWhitespace_advances [OF w] by (rule advances_trans)
      show ?thesis
      proof (cases e2)
        case None
        have "scanFunctionArgs_loop funcName funcDepth s2 args expectComma = (t, e, s')"
          using res' r ws w None by simp
        moreover have "\<forall>t e s'. scanFunctionArgs_loop funcName funcDepth s2 args expectComma =
            (t, e, s') \<longrightarrow> advances s2 s'"
          using IH(1) ws w None by simp
        ultimately show ?thesis using a2 by (blast intro: advances_trans)
      next
        case (Some x)
        then have "s' = s2" using res' r ws w by simp
        with a2 show ?thesis by simp
      qed
    next
      case comment
      obtain t2 e2 s2 where w: "scanComment (unread s1) = (t2, e2, s2)"
        by (cases "scanComment (unread s1)")
      have a2: "advances s s2"
        using b [OF comment(1)] scanComment_advances [OF w] by (rule advances_trans)
      show ?thesis
      proof (cases e2)
        case None
        have "scanFunctionArgs_loop funcName funcDepth s2 args expectComma = (t, e, s')"
          using res' r comment w None by simp
        moreover have "\<forall>t e s'. scanFunctionArgs_loop funcName funcDepth s2 args expectComma =
            (t, e, s') \<longrightarrow> advances s2 s'"
          using IH(2) comment w None by simp
        ultimately show ?thesis using a2 by (blast intro: advances_trans)
      next
        case (Some x)
        then have "s' = s2" using res' r comment w by simp
        with a2 show ?thesis by simp
      qed
    next
      case comma
      show ?thesis
      proof (cases expectComma)
        case True
        have "scanFunctionArgs_loop funcName funcDepth s1 args False = (t, e, s')"
          using res' r comma True by simp
        moreover have "\<forall>t e s'. scanFunctionArgs_loop funcName funcDepth s1 args False =
            (t, e, s') \<longrightarrow> advances s1 s'"
          using IH(3) comma True by simp
        ultimately show ?thesis using a by (blast intro: advances_trans)
      next
        case False
        then have "s' = s1" using res' r comma by simp
        with a show ?thesis by simp
      qed
    next
      case badcomma
      then have "s' = s1" using res' r by simp
      with a show ?thesis by simp
    next
      case ident
      obtain t2 e2 s2 where w: "scanIdentifier (funcDepth - 1) (unread s1) = (t2, e2, s2)"
        by (cases "scanIdentifier (funcDepth - 1) (unread s1)")
      have "advances (unread s1) s2" using IH(4) ident w by simp
      with b [OF ident(1)] have a2: "advances s s2" by (rule advances_trans)
      show ?thesis
      proof (cases e2)
        case None
        have "scanFunctionArgs_loop funcName funcDepth s2 (args @ [t2]) True = (t, e, s')"
          using res' r ident w None by simp
        moreover have "\<forall>t e s'. scanFunctionArgs_loop funcName funcDepth s2 (args @ [t2]) True =
            (t, e, s') \<longrightarrow> advances s2 s'"
          using IH(5) ident w None by simp
        ultimately show ?thesis using a2 by (blast intro: advances_trans)
      next
        case (Some x)
        then have "s' = s2" using res' r ident w by simp
        with a2 show ?thesis by simp
      qed
    next
      case number
      obtain t2 e2 s2 where w: "scanNumber (unread s1) = (t2, e2, s2)"
        by (cases "scanNumber (unread s1)")
      have a2: "advances s s2"
        using b [OF number(1)] scanNumber_advances [OF w] by (rule advances_trans)
      show ?thesis
      proof (cases e2)
        case None
        have "scanFunctionArgs_loop funcName funcDepth s2 (args @ [t2]) True = (t, e, s')"
          using res' r number w None by simp
        moreover have "\<forall>t e s'. scanFunctionArgs_loop funcName funcDepth s2 (args @ [t2]) True =
            (t, e, s') \<longrightarrow> advances s2 s'"
          using IH(6) number w None by simp
        ultimately show ?thesis using a2 by (blast intro: advances_trans)
      next
        case (Some x)
        then have "s' = s2" using res' r number w by simp
        with a2 show ?thesis by simp
      qed
    next
      case quoted
      obtain t2 e2 s2 where w: "scanText False (unread s1) = (t2, e2, s2)"
        by (cases "scanText False (unread s1)")
      have a2: "advances s s2"
        using b [OF quoted(1)] scanText_advances [OF w] by (rule advances_trans)
      show ?thesis
      proof (cases e2)
        case None
        have "scanFunctionArgs_loop funcName funcDepth s2 (args @ [t2]) True = (t, e, s')"
          using res' r quoted w None by simp
        moreover have "\<forall>t e s'. scanFunctionArgs_loop funcName funcDepth s2 (args @ [t2]) True =
            (t, e, s') \<longrightarrow> advances s2 s'"
          using IH(7) quoted w None by simp
        ultimately show ?thesis using a2 by (blast intro: advances_trans)
      next
        case (Some x)
        then have "s' = s2" using res' r quoted w by simp
        with a2 show ?thesis by simp
      qed
    next
      case other
      then have "s' = s1" using res' r by simp
      with a show ?thesis by simp
    qed
  qed
qed


lemma read_remaining_le: "(ch, s1) = read s \<Longrightarrow> remaining s1 \<le> remaining s"
  using read_data [of s ch s1] read_pos_mono [of s ch s1] by (simp add: remaining_def)

lemma advances_remaining_less:
  "advances s s' \<Longrightarrow> pos s < pos s' \<Longrightarrow> pos s < length (data s) \<Longrightarrow>
     remaining s' < remaining s"
  by (auto simp: advances_def remaining_def)

lemma advances_remaining_le: "advances s s' \<Longrightarrow> remaining s' \<le> remaining s"
  by (auto simp: advances_def remaining_def)

lemma term_whitespace:
  assumes "(ch, s1) = read s" and "ch \<noteq> eof" and "(t, e, s2) = scanWhitespace s1"
  shows "remaining s2 < remaining s"
  using read_remaining_sym [OF assms(1,2)]
    advances_remaining_le [OF scanWhitespace_advances [OF assms(3) [symmetric]]]
  by simp

lemma term_comment:
  assumes "(ch, s1) = read s" and "isCommentStartRune ch"
    and "(t, e, s2) = scanComment (unread s1)"
  shows "remaining s2 < remaining s"
proof -
  have r: "read s = (ch, s1)" using assms(1) by simp
  have c: "ch \<noteq> eof" "ch < 128" using assms(2) by (auto simp: isCommentStartRune_def eof_def)
  have u: "unread s1 = s" using r c by (rule read_unread_ascii)
  have lt: "pos s < length (data s)" using r c(1) by (rule read_not_eof)
  have st: "scanComment s = (t, e, s2)" using assms(3) u by simp
  from advances_remaining_less [OF scanComment_advances [OF st] scanComment_strict [OF st lt] lt]
  show ?thesis .
qed

lemma term_number:
  assumes "(ch, s1) = read s" and "ch \<noteq> eof" and "isNumberStartRune ch"
    and "(t, e, s2) = scanNumber (unread s1)"
  shows "remaining s2 < remaining s"
proof -
  have r: "read s = (ch, s1)" using assms(1) by simp
  have c: "ch < 128" using assms(3) by (auto simp: isNumberStartRune_def isDigitRune_def)
  have u: "unread s1 = s" using r assms(2) c by (rule read_unread_ascii)
  have lt: "pos s < length (data s)" using r assms(2) by (rule read_not_eof)
  have st: "scanNumber s = (t, e, s2)" using assms(4) u by simp
  from advances_remaining_less [OF scanNumber_advances [OF st]
      scanNumber_strict [OF st r assms(2,3)] lt]
  show ?thesis .
qed

lemma isIdentifierStartRune_ascii: "isIdentifierStartRune ch \<Longrightarrow> ch \<noteq> eof \<and> ch < 128"
  by (auto simp: isIdentifierStartRune_def isLetterRune_def isIdentifierSpecialStartRune_def
        eof_def)

lemma term_identifier:
  assumes "(ch, s1) = read s" and "isIdentifierStartRune ch"
    and "(t, e, s2) = scanIdentifier funcDepth (unread s1)"
    and "scanIdentifier_scanIdentifier_loop_scanFunctionArgs_scanFunctionArgs_loop_dom
           (Inl (Inl (funcDepth, unread s1)))"
  shows "remaining s2 < remaining s"
proof -
  have r: "read s = (ch, s1)" using assms(1) by simp
  note c = isIdentifierStartRune_ascii [OF assms(2)]
  have u: "unread s1 = s" using r c by (simp add: read_unread_ascii)
  have lt: "pos s < length (data s)" using r c by (simp add: read_not_eof)
  have st: "scanIdentifier funcDepth s = (t, e, s2)" using assms(3) u by simp
  from scanIdentifier_dom_advances(1) [OF assms(4)] u st lt
  have "advances s s2" "pos s < pos s2" by auto
  then show ?thesis using lt by (rule advances_remaining_less)
qed

lemma term_level: "Suc (2 * nat (funcDepth - 1)) < max 2 (2 * nat funcDepth)"
  by (cases "funcDepth \<le> 0") auto

termination scanIdentifier
  apply (relation "measures
     [\<lambda>x. case x of Inl (Inl (d, s)) \<Rightarrow> 2 * nat d + 1 | Inl (Inr (d, s, buf)) \<Rightarrow> 2 * nat d + 1
          | Inr (Inl (fn, d, s)) \<Rightarrow> max 2 (2 * nat d) | Inr (Inr (fn, d, s, args, ec)) \<Rightarrow> max 2 (2 * nat d),
      \<lambda>x. case x of Inl (Inl (d, s)) \<Rightarrow> remaining s | Inl (Inr (d, s, buf)) \<Rightarrow> remaining s
          | Inr (Inl (fn, d, s)) \<Rightarrow> remaining s | Inr (Inr (fn, d, s, args, ec)) \<Rightarrow> remaining s,
      \<lambda>x. case x of Inl (Inl (d, s)) \<Rightarrow> 1 | Inl (Inr (d, s, buf)) \<Rightarrow> 0
          | Inr (Inl (fn, d, s)) \<Rightarrow> 1 | Inr (Inr (fn, d, s, args, ec)) \<Rightarrow> 0]")
             apply simp_all
  subgoal using read_remaining_le by (simp add: le_less)
  subgoal by (simp add: read_remaining_sym)
  subgoal using read_remaining_le by (simp add: le_less)
  subgoal using term_whitespace by blast
  subgoal using term_comment by blast
  subgoal by (simp add: read_remaining_sym)
  subgoal by (simp add: term_level)
  subgoal using term_identifier by blast
  subgoal using term_number by blast
  subgoal using scanText_unread_remaining by blast
  done

declare scanIdentifier.simps [simp del] scanIdentifier_loop.simps [simp del]
  scanFunctionArgs.simps [simp del] scanFunctionArgs_loop.simps [simp del]

lemma scanIdentifier_advances_all:
  "\<forall>t e s'. scanIdentifier funcDepth s = (t, e, s') \<longrightarrow>
     advances s s' \<and> (pos s < length (data s) \<longrightarrow> pos s < pos s')"
  "\<forall>t e s'. scanIdentifier_loop funcDepth s buf = (t, e, s') \<longrightarrow> advances s s'"
  "\<forall>t e s'. scanFunctionArgs funcName funcDepth s = (t, e, s') \<longrightarrow> advances s s'"
  "\<forall>t e s'. scanFunctionArgs_loop funcName funcDepth s args expectComma = (t, e, s') \<longrightarrow>
     advances s s'"
proof (induction funcDepth s and funcDepth s buf and funcName funcDepth s
    and funcName funcDepth s args expectComma
    rule: scanIdentifier_scanIdentifier_loop_scanFunctionArgs_scanFunctionArgs_loop.induct)
  case (1 funcDepth s)
  note eq = scanIdentifier.simps [of funcDepth s]
  obtain ch s0 where r: "read s = (ch, s0)" by (cases "read s")
  from "1.IH" [OF r [symmetric]] read_advances [OF r] advances_strict [OF r] r show ?case
    by (auto simp: eq intro: advances_trans)
next
  case (2 funcDepth s buf)
  note eq = scanIdentifier_loop.simps [of funcDepth s buf]
  obtain ch s1 where r: "read s = (ch, s1)" by (cases "read s")
  note a = read_advances [OF r] and b = read_unread_advances [OF r]
  show ?case using "2.IH" [OF r [symmetric]] a b r
    by (auto simp: eq identifierToken_def split: if_splits option.splits
             intro: advances_trans)
next
  case (3 funcName funcDepth s)
  note eq = scanFunctionArgs.simps [of funcName funcDepth s]
  obtain ch s1 where r: "read s = (ch, s1)" by (cases "read s")
  from "3.IH" [OF r [symmetric]] read_advances [OF r] r show ?case
    by (auto simp: eq split: if_splits intro: advances_trans)
next
  case (4 funcName funcDepth s args expectComma)
  note eq = scanFunctionArgs_loop.simps [of funcName funcDepth s args expectComma]
  obtain ch s1 where r: "read s = (ch, s1)" by (cases "read s")
  note a = read_advances [OF r] and b = read_unread_advances [OF r]
  note IH = "4.IH" [OF r [symmetric]]
  show ?case
  proof (intro allI impI)
    fix t e s'
    assume res: "scanFunctionArgs_loop funcName funcDepth s args expectComma = (t, e, s')"
    note res' = res [unfolded eq]
    consider (stop) "ch = eof \<or> ch = rune_of CHR '')''"
      | (ws) "ch \<noteq> eof" "ch \<noteq> rune_of CHR '')''" "isWhitespaceRune ch"
      | (comment) "ch \<noteq> eof" "ch \<noteq> rune_of CHR '')''" "\<not> isWhitespaceRune ch"
          "isCommentStartRune ch"
      | (comma) "ch \<noteq> eof" "ch \<noteq> rune_of CHR '')''" "\<not> isWhitespaceRune ch"
          "\<not> isCommentStartRune ch" "ch = rune_of CHR '',''"
      | (badcomma) "ch \<noteq> eof" "ch \<noteq> rune_of CHR '')''" "\<not> isWhitespaceRune ch"
          "\<not> isCommentStartRune ch" "ch \<noteq> rune_of CHR '',''" "expectComma"
      | (ident) "ch \<noteq> eof" "ch \<noteq> rune_of CHR '')''" "\<not> isWhitespaceRune ch"
          "\<not> isCommentStartRune ch" "ch \<noteq> rune_of CHR '',''" "\<not> expectComma"
          "isIdentifierStartRune ch"
      | (number) "ch \<noteq> eof" "ch \<noteq> rune_of CHR '')''" "\<not> isWhitespaceRune ch"
          "\<not> isCommentStartRune ch" "ch \<noteq> rune_of CHR '',''" "\<not> expectComma"
          "\<not> isIdentifierStartRune ch" "isNumberStartRune ch"
      | (quoted) "ch \<noteq> eof" "ch \<noteq> rune_of CHR '')''" "\<not> isWhitespaceRune ch"
          "\<not> isCommentStartRune ch" "ch \<noteq> rune_of CHR '',''" "\<not> expectComma"
          "\<not> isIdentifierStartRune ch" "\<not> isNumberStartRune ch" "isTextStartRune ch"
      | (other) "ch \<noteq> eof" "ch \<noteq> rune_of CHR '')''" "\<not> isWhitespaceRune ch"
          "\<not> isCommentStartRune ch" "ch \<noteq> rune_of CHR '',''" "\<not> expectComma"
          "\<not> isIdentifierStartRune ch" "\<not> isNumberStartRune ch" "\<not> isTextStartRune ch"
      by blast
    then show "advances s s'"
    proof cases
      case stop
      then have "s' = s1" using res' r by (auto simp: eof_def)
      with a show ?thesis by simp
    next
      case ws
      obtain t2 e2 s2 where w: "scanWhitespace s1 = (t2, e2, s2)" by (cases "scanWhitespace s1")
      have a2: "advances s s2" using a scanWhitespace_advances [OF w] by (rule advances_trans)
      show ?thesis
      proof (cases e2)
        case None
        have "scanFunctionArgs_loop funcName funcDepth s2 args expectComma = (t, e, s')"
          using res' r ws w None by simp
        moreover have "\<forall>t e s'. scanFunctionArgs_loop funcName funcDepth s2 args expectComma =
            (t, e, s') \<longrightarrow> advances s2 s'"
          using IH(1) ws w None by simp
        ultimately show ?thesis using a2 by (blast intro: advances_trans)
      next
        case (Some x)
        then have "s' = s2" using res' r ws w by simp
        with a2 show ?thesis by simp
      qed
    next
      case comment
      obtain t2 e2 s2 where w: "scanComment (unread s1) = (t2, e2, s2)"
        by (cases "scanComment (unread s1)")
      have a2: "advances s s2"
        using b [OF comment(1)] scanComment_advances [OF w] by (rule advances_trans)
      show ?thesis
      proof (cases e2)
        case None
        have "scanFunctionArgs_loop funcName funcDepth s2 args expectComma = (t, e, s')"
          using res' r comment w None by simp
        moreover have "\<forall>t e s'. scanFunctionArgs_loop funcName funcDepth s2 args expectComma =
            (t, e, s') \<longrightarrow> advances s2 s'"
          using IH(2) comment w None by simp
        ultimately show ?thesis using a2 by (blast intro: advances_trans)
      next
        case (Some x)
        then have "s' = s2" using res' r comment w by simp
        with a2 show ?thesis by simp
      qed
    next
      case comma
      show ?thesis
      proof (cases expectComma)
        case True
        have "scanFunctionArgs_loop funcName funcDepth s1 args False = (t, e, s')"
          using res' r comma True by simp
        moreover have "\<forall>t e s'. scanFunctionArgs_loop funcName funcDepth s1 args False =
            (t, e, s') \<longrightarrow> advances s1 s'"
          using IH(3) comma True by simp
        ultimately show ?thesis using a by (blast intro: advances_trans)
      next
        case False
        then have "s' = s1" using res' r comma by simp
        with a show ?thesis by simp
      qed
    next
      case badcomma
      then have "s' = s1" using res' r by simp
      with a show ?thesis by simp
    next
      case ident
      obtain t2 e2 s2 where w: "scanIdentifier (funcDepth - 1) (unread s1) = (t2, e2, s2)"
        by (cases "scanIdentifier (funcDepth - 1) (unread s1)")
      have "advances (unread s1) s2" using IH(4) ident w by simp
      with b [OF ident(1)] have a2: "advances s s2" by (rule advances_trans)
      show ?thesis
      proof (cases e2)
        case None
        have "scanFunctionArgs_loop funcName funcDepth s2 (args @ [t2]) True = (t, e, s')"
          using res' r ident w None by simp
        moreover have "\<forall>t e s'. scanFunctionArgs_loop funcName funcDepth s2 (args @ [t2]) True =
            (t, e, s') \<longrightarrow> advances s2 s'"
          using IH(5) ident w None by simp
        ultimately show ?thesis using a2 by (blast intro: advances_trans)
      next
        case (Some x)
        then have "s' = s2" using res' r ident w by simp
        with a2 show ?thesis by simp
      qed
    next
      case number
      obtain t2 e2 s2 where w: "scanNumber (unread s1) = (t2, e2, s2)"
        by (cases "scanNumber (unread s1)")
      have a2: "advances s s2"
        using b [OF number(1)] scanNumber_advances [OF w] by (rule advances_trans)
      show ?thesis
      proof (cases e2)
        case None
        have "scanFunctionArgs_loop funcName funcDepth s2 (args @ [t2]) True = (t, e, s')"
          using res' r number w None by simp
        moreover have "\<forall>t e s'. scanFunctionArgs_loop funcName funcDepth s2 (args @ [t2]) True =
            (t, e, s') \<longrightarrow> advances s2 s'"
          using IH(6) number w None by simp
        ultimately show ?thesis using a2 by (blast intro: advances_trans)
      next
        case (Some x)
        then have "s' = s2" using res' r number w by simp
        with a2 show ?thesis by simp
      qed
    next
      case quoted
      obtain t2 e2 s2 where w: "scanText False (unread s1) = (t2, e2, s2)"
        by (cases "scanText False (unread s1)")
      have a2: "advances s s2"
        using b [OF quoted(1)] scanText_advances [OF w] by (rule advances_trans)
      show ?thesis
      proof (cases e2)
        case None
        have "scanFunctionArgs_loop funcName funcDepth s2 (args @ [t2]) True = (t, e, s')"
          using res' r quoted w None by simp
        moreover have "\<forall>t e s'. scanFunctionArgs_loop funcName funcDepth s2 (args @ [t2]) True =
            (t, e, s') \<longrightarrow> advances s2 s'"
          using IH(7) quoted w None by simp
        ultimately show ?thesis using a2 by (blast intro: advances_trans)
      next
        case (Some x)
        then have "s' = s2" using res' r quoted w by simp
        with a2 show ?thesis by simp
      qed
    next
      case other
      then have "s' = s1" using res' r by simp
      with a show ?thesis by simp
    qed
  qed
qed

subsection \<open>Scan\<close>

definition Scan :: "Scanner \<Rightarrow> scanned" where
  "Scan s =
     (case read s of (ch, s1) \<Rightarrow>
        if ch = eof then (Token None TokenEOF [], None, s1)
        else if isWhitespaceRune ch then scanWhitespace (unread s1)
        else if isGroupStartRune ch then scanGroup (unread s1)
        else if isIdentifierStartRune ch then
          (let s2 = unread s1 in scanIdentifier (maxFuncDepth s2) s2)
        else if isNumberStartRune ch then scanNumber (unread s1)
        else if isTextStartRune ch then scanText False (unread s1)
        else if isSignStartRune ch then scanSign (unread s1)
        else if isJoinStartRune ch then scanJoin (unread s1)
        else if isCommentStartRune ch then scanComment (unread s1)
        else (Token None TokenUnexpected (EncodeRune ch), Some (ErrUnexpectedChar ch), s1))"

lemma scanGroup_loop_advances:
  "(scanGroup_loop s buf openGroups = Inl (t, e, s') \<longrightarrow> advances s s') \<and>
   (scanGroup_loop s buf openGroups = Inr (b, k, s') \<longrightarrow> advances s s')"
proof (induction s buf openGroups rule: scanGroup_loop.induct)
  case (1 s buf openGroups)
  obtain ch s1 where r: "read s = (ch, s1)" by (cases "read s")
  note a = read_advances [OF r] and u = read_unread_advances [OF r]
  note eq = scanGroup_loop.simps [of s buf openGroups]
  note IH = "1.IH" [OF r [symmetric]]
  consider (stop) "ch = eof"
    | (opn) "ch \<noteq> eof" "isGroupStartRune ch"
    | (quoted) "ch \<noteq> eof" "\<not> isGroupStartRune ch" "isTextStartRune ch"
    | (closing) "ch \<noteq> eof" "\<not> isGroupStartRune ch" "\<not> isTextStartRune ch"
        "ch = rune_of CHR '')''"
    | (other) "ch \<noteq> eof" "\<not> isGroupStartRune ch" "\<not> isTextStartRune ch"
        "ch \<noteq> rune_of CHR '')''"
    by blast
  then show ?case
  proof cases
    case stop
    then show ?thesis using a r by (auto simp: eq)
  next
    case opn
    then have "scanGroup_loop s buf openGroups =
        scanGroup_loop s1 (buf @ EncodeRune ch) (openGroups + 1)"
      using r by (simp add: eq)
    then show ?thesis using IH(1) opn a by (auto intro: advances_trans)
  next
    case quoted
    obtain t2 e2 s2 where w: "scanText True (unread s1) = (t2, e2, s2)"
      by (cases "scanText True (unread s1)")
    have a2: "advances s s2"
      using u [OF quoted(1)] scanText_advances [OF w] by (rule advances_trans)
    show ?thesis
    proof (cases e2)
      case None
      then have "scanGroup_loop s buf openGroups =
          scanGroup_loop s2 (buf @ Literal t2) openGroups"
        using r quoted w by (simp add: eq)
      moreover have "(scanGroup_loop s2 (buf @ Literal t2) openGroups = Inl (t, e, s') \<longrightarrow>
            advances s2 s') \<and>
          (scanGroup_loop s2 (buf @ Literal t2) openGroups = Inr (b, k, s') \<longrightarrow> advances s2 s')"
        using IH(2) quoted w None by simp
      ultimately show ?thesis using a2 by (auto intro: advances_trans)
    next
      case (Some x)
      then show ?thesis using r quoted w a2 by (auto simp: eq)
    qed
  next
    case closing
    show ?thesis
    proof (cases "openGroups - 1 \<le> 0")
      case True
      then show ?thesis using r closing a by (auto simp: eq)
    next
      case False
      then have "scanGroup_loop s buf openGroups =
          scanGroup_loop s1 (buf @ EncodeRune ch) (openGroups - 1)"
        using r closing by (simp add: eq)
      then show ?thesis using IH(3) closing False a by (auto intro: advances_trans)
    qed
  next
    case other
    then have "scanGroup_loop s buf openGroups =
        scanGroup_loop s1 (buf @ EncodeRune ch) openGroups"
      using r by (simp add: eq)
    then show ?thesis using IH(4) other a by (auto intro: advances_trans)
  qed
qed

lemma scanGroup_advances:
  assumes "scanGroup s = (t, e, s')"
  shows "advances s s' \<and> (pos s < length (data s) \<longrightarrow> pos s < pos s')"
proof -
  obtain ch s0 where r: "read s = (ch, s0)" by (cases "read s")
  have "advances s0 s'"
  proof (cases "scanGroup_loop s0 [] 1")
    case (Inl x)
    then show ?thesis using assms r scanGroup_loop_advances [of s0 "[]" 1 t e s']
      by (auto simp: scanGroup_def)
  next
    case (Inr y)
    obtain b k s2 where y: "y = (b, k, s2)" by (cases y)
    then have "s' = s2" using assms r Inr by (auto simp: scanGroup_def)
    then show ?thesis using Inr y scanGroup_loop_advances [of s0 "[]" 1 t e s' b k] by simp
  qed
  with read_advances [OF r] advances_strict [OF r] show ?thesis
    by (auto intro: advances_trans)
qed

lemma scanIdentifier_advances:
  assumes "scanIdentifier funcDepth s = (t, e, s')"
  shows "advances s s'" and "pos s < length (data s) \<Longrightarrow> pos s < pos s'"
  using scanIdentifier_advances_all(1) [of funcDepth s] assms by auto

text \<open>
  \<open>Scan\<close> steps back only after a rune of the dispatch table, which is one byte wide, so
  each sub-scanner starts where \<open>Scan\<close> started.
\<close>

lemma Scan_advances:
  assumes "Scan s = (t, e, s')"
  shows "advances s s'" and "pos s < length (data s) \<Longrightarrow> pos s < pos s'"
proof -
  obtain ch s1 where r: "read s = (ch, s1)" by (cases "read s")
  note a = read_advances [OF r]
  have "advances s s' \<and> (pos s < length (data s) \<longrightarrow> pos s < pos s')"
  proof (cases "ch = eof \<or> (\<not> isWhitespaceRune ch \<and> \<not> isGroupStartRune ch \<and>
      \<not> isIdentifierStartRune ch \<and> \<not> isNumberStartRune ch \<and> \<not> isTextStartRune ch \<and>
      \<not> isSignStartRune ch \<and> \<not> isJoinStartRune ch \<and> \<not> isCommentStartRune ch)")
    case True
    then have "s' = s1" using assms r by (auto simp: Scan_def split: if_splits)
    with a advances_strict [OF r advances_refl] show ?thesis by simp
  next
    case False
    then have ne: "ch \<noteq> eof" by simp
    have "ch < 128" using False
      by (auto simp: isWhitespaceRune_def isGroupStartRune_def isIdentifierStartRune_def
          isLetterRune_def isIdentifierSpecialStartRune_def isNumberStartRune_def
          isDigitRune_def isTextStartRune_def isSignStartRune_def isJoinStartRune_def
          isCommentStartRune_def)
    then have u: "unread s1 = s" using r ne by (simp add: read_unread_ascii)
    have lt: "pos s < length (data s)" using r ne by (rule read_not_eof)
    show ?thesis
      using assms r ne u lt False
        scanWhitespace_advances [of s t e s'] scanWhitespace_strict [of s t e s' ch s1]
        scanGroup_advances [of s t e s']
        scanIdentifier_advances [of "maxFuncDepth s" s t e s']
        scanNumber_advances [of s t e s'] scanNumber_strict [of s t e s' ch s1]
        scanText_advances [of False s t e s'] scanText_strict [of False s t e s']
        scanSign_advances [of s t e s'] scanSign_strict [of s t e s' ch s1]
        scanJoin_advances [of s t e s'] scanJoin_strict [of s t e s' ch s1]
        scanComment_advances [of s t e s'] scanComment_strict [of s t e s']
      by (auto simp: Scan_def Let_def split: if_splits)
  qed
  then show "advances s s'" and "pos s < length (data s) \<Longrightarrow> pos s < pos s'" by simp_all
qed

section \<open>Properties of the scanner\<close>

text \<open>The equations that evaluate a scan of a given buffer.\<close>

lemmas scan_eval =
  Scan_def NewScanner_def read_def unread_def eof_def RuneError_def EncodeRune_def Let_def
  scanWhitespace_def scanWhitespace_loop.simps scanNumber_def scanNumber_loop.simps
  scanSign_def scanSign_loop.simps scanJoin_def scanJoin_loop.simps
  scanText_def scanText_loop.simps scanComment_def scanComment_loop.simps
  scanGroup_def scanGroup_loop.simps identifierToken_def isValidIdentifier_def
  scanIdentifier.simps scanIdentifier_loop.simps scanFunctionArgs.simps
  scanFunctionArgs_loop.simps
  isWhitespaceRune_def isLetterRune_def isDigitRune_def isTextStartRune_def
  isNumberStartRune_def isSignStartRune_def isJoinStartRune_def isGroupStartRune_def
  isCommentStartRune_def isIdentifierSpecialStartRune_def isIdentifierStartRune_def
  isIdentifierCombineRune_def isSignOperator_def isJoinOperator_def char_of_eq_iff

text \<open>
  C10. Scanning the input \<open>()\<close> gives a group token with an empty literal and no error:
  for the scanner an empty group is well formed.
\<close>

theorem Scan_empty_group:
  "Scan (NewScanner ''()'') =
     (Token None TokenGroup [], None, \<lparr>data = ''()'', pos = 2, maxFuncDepth = 3\<rparr>)"
  by (simp add: scan_eval)

text \<open>
  C5. With the depth ceiling 3 of \<open>NewScanner\<close>, \<open>a(b(c(1)))\<close> scans to a function token
  with its nested arguments and no error. \<open>a(b(c(d(1))))\<close> fails: the scan of \<open>d\<close>, started
  with the budget 0, meets \<open>(\<close> and returns the function token \<open>d\<close> without arguments and
  the error of the ceiling, which each enclosing call wraps, returning its own token with
  the arguments collected so far: none.
\<close>

theorem Scan_function_depth:
  "Scan (NewScanner ''a(b(c(1)))'') =
     (Token (Some [Token (Some [Token (Some [Token None TokenNumber ''1''])
                                  TokenFunction ''c''])
                     TokenFunction ''b''])
        TokenFunction ''a'',
      None, \<lparr>data = ''a(b(c(1)))'', pos = 10, maxFuncDepth = 3\<rparr>) \<and>
   scanIdentifier 0 \<lparr>data = ''a(b(c(d(1))))'', pos = 6, maxFuncDepth = 3\<rparr> =
     (Token None TokenFunction ''d'', Some (ErrMaxNestedFunc 3),
      \<lparr>data = ''a(b(c(d(1))))'', pos = 8, maxFuncDepth = 3\<rparr>) \<and>
   Scan (NewScanner ''a(b(c(d(1))))'') =
     (Token (Some []) TokenFunction ''a'',
      Some (ErrInvalidIdentifierArg ''b'' ''a''
             (ErrInvalidIdentifierArg ''c'' ''b''
               (ErrInvalidIdentifierArg ''d'' ''c'' (ErrMaxNestedFunc 3)))),
      \<lparr>data = ''a(b(c(d(1))))'', pos = 8, maxFuncDepth = 3\<rparr>)"
  by (simp add: scan_eval)

text \<open>
  C7. \<open>unread\<close> moves the cursor back by one byte, whatever the width of the rune read
  last. After reading the two-byte rune U+00E9 at position 0 and stepping back, the cursor
  is at position 1, inside the rune. It shows in \<open>Scan\<close>: on a space followed by U+00E9,
  the whitespace scan reads the rune, steps back one byte, and the next token is the
  unexpected rune U+FFFD of the stray second byte instead of U+00E9.
\<close>

theorem unread_multibyte:
  "read (NewScanner [CHR 0xC3, CHR 0xA9]) =
     (233, \<lparr>data = [CHR 0xC3, CHR 0xA9], pos = 2, maxFuncDepth = 3\<rparr>) \<and>
   unread (snd (read (NewScanner [CHR 0xC3, CHR 0xA9]))) =
     \<lparr>data = [CHR 0xC3, CHR 0xA9], pos = 1, maxFuncDepth = 3\<rparr> \<and>
   Scan (NewScanner [CHR 0x20, CHR 0xC3, CHR 0xA9]) =
     (Token None TokenWS [CHR 0x20], None,
      \<lparr>data = [CHR 0x20, CHR 0xC3, CHR 0xA9], pos = 2, maxFuncDepth = 3\<rparr>) \<and>
   Scan \<lparr>data = [CHR 0x20, CHR 0xC3, CHR 0xA9], pos = 2, maxFuncDepth = 3\<rparr> =
     (Token None TokenUnexpected [CHR 0xEF, CHR 0xBF, CHR 0xBD], Some (ErrUnexpectedChar 65533),
      \<lparr>data = [CHR 0x20, CHR 0xC3, CHR 0xA9], pos = 3, maxFuncDepth = 3\<rparr>)"
  by (simp add: scan_eval)

text \<open>
  C8. With the cursor at the end of the buffer, \<open>Scan\<close> returns the end token, no error and
  the scanner as it was; so does every further call.
\<close>

theorem Scan_at_end:
  assumes "length (data s) \<le> pos s"
  shows "Scan (((\<lambda>s. snd (snd (Scan s))) ^^ n) s) = (Token None TokenEOF [], None, s)"
proof -
  have one: "Scan s = (Token None TokenEOF [], None, s)"
    using assms by (simp add: Scan_def read_at_end)
  have "((\<lambda>s. snd (snd (Scan s))) ^^ n) s = s"
    by (induction n) (simp_all add: one)
  with one show ?thesis by simp
qed

theorem Scan_at_end_witness:
  "length (data \<lparr>data = ''id'', pos = 2, maxFuncDepth = 3\<rparr>) \<le>
     pos \<lparr>data = ''id'', pos = 2, maxFuncDepth = 3\<rparr> \<and>
   Scan (((\<lambda>s. snd (snd (Scan s))) ^^ 5) \<lparr>data = ''id'', pos = 2, maxFuncDepth = 3\<rparr>) =
     (Token None TokenEOF [], None, \<lparr>data = ''id'', pos = 2, maxFuncDepth = 3\<rparr>)"
  using Scan_at_end [of "\<lparr>data = ''id'', pos = 2, maxFuncDepth = 3\<rparr>" 5] by simp

text \<open>
  C9. From a cursor inside the buffer, a call of \<open>Scan\<close> that returns a token other than
  the end token moves the cursor forward by at least one byte; the cursor stays inside the
  same buffer (it is a natural number, and its only decrement is the guarded one of
  \<open>unread\<close>); and repeating \<open>Scan\<close> gives the end token after at most as many calls as
  there are bytes left.
\<close>

lemma Scan_reaches_eof:
  "\<exists>n \<le> remaining s. Type (fst (Scan (((\<lambda>s. snd (snd (Scan s))) ^^ n) s))) = TokenEOF"
proof (induction "remaining s" arbitrary: s rule: less_induct)
  case less
  obtain t e s' where sc: "Scan s = (t, e, s')" by (cases "Scan s")
  show ?case
  proof (cases "Type t = TokenEOF")
    case True
    then have "Type (fst (Scan (((\<lambda>s. snd (snd (Scan s))) ^^ 0) s))) = TokenEOF"
      using sc by simp
    then show ?thesis by blast
  next
    case False
    have lt: "pos s < length (data s)"
    proof (rule ccontr)
      assume "\<not> pos s < length (data s)"
      then have "Scan s = (Token None TokenEOF [], None, s)"
        by (simp add: Scan_def read_at_end)
      with sc False show False by auto
    qed
    have "remaining s' < remaining s"
      using Scan_advances [OF sc] lt by (simp add: advances_remaining_less)
    from less [OF this] obtain n where n: "n \<le> remaining s'"
      "Type (fst (Scan (((\<lambda>s. snd (snd (Scan s))) ^^ n) s'))) = TokenEOF" by blast
    have "((\<lambda>s. snd (snd (Scan s))) ^^ Suc n) s = ((\<lambda>s. snd (snd (Scan s))) ^^ n) s'"
      using sc by (simp del: funpow.simps add: funpow_Suc_right)
    with n \<open>remaining s' < remaining s\<close> have "Suc n \<le> remaining s \<and>
        Type (fst (Scan (((\<lambda>s. snd (snd (Scan s))) ^^ Suc n) s))) = TokenEOF"
      by simp
    then show ?thesis by blast
  qed
qed

theorem Scan_progress:
  assumes "pos s \<le> length (data s)" and "Scan s = (t, e, s')"
  shows "(Type t \<noteq> TokenEOF \<longrightarrow> pos s < pos s') \<and>
         pos s' \<le> length (data s') \<and> data s' = data s \<and>
         (\<exists>n \<le> length (data s) - pos s.
            Type (fst (Scan (((\<lambda>s. snd (snd (Scan s))) ^^ n) s))) = TokenEOF)"
proof -
  have "Type t \<noteq> TokenEOF \<Longrightarrow> pos s < pos s'"
  proof -
    assume ne: "Type t \<noteq> TokenEOF"
    have "pos s < length (data s)"
    proof (rule ccontr)
      assume "\<not> pos s < length (data s)"
      then have "Scan s = (Token None TokenEOF [], None, s)"
        by (simp add: Scan_def read_at_end)
      with assms(2) ne show False by auto
    qed
    then show ?thesis using Scan_advances(2) [OF assms(2)] by simp
  qed
  moreover have "pos s' \<le> length (data s') \<and> data s' = data s"
    using Scan_advances(1) [OF assms(2)] assms(1) by (simp add: advances_def)
  moreover note Scan_reaches_eof [of s, unfolded remaining_def]
  ultimately show ?thesis by blast
qed

theorem Scan_progress_witness:
  "pos (NewScanner ''a=1'') \<le> length (data (NewScanner ''a=1'')) \<and>
   Scan (NewScanner ''a=1'') =
     (Token None TokenIdentifier ''a'', None, \<lparr>data = ''a=1'', pos = 1, maxFuncDepth = 3\<rparr>) \<and>
   Type (Token None TokenIdentifier ''a'') \<noteq> TokenEOF \<and>
   pos (NewScanner ''a=1'') < pos \<lparr>data = ''a=1'', pos = 1, maxFuncDepth = 3\<rparr> \<and>
   (\<exists>n \<le> length (data (NewScanner ''a=1'')) - pos (NewScanner ''a=1'').
      Type (fst (Scan (((\<lambda>s. snd (snd (Scan s))) ^^ n) (NewScanner ''a=1'')))) = TokenEOF)"
proof -
  have sc: "Scan (NewScanner ''a=1'') =
     (Token None TokenIdentifier ''a'', None, \<lparr>data = ''a=1'', pos = 1, maxFuncDepth = 3\<rparr>)"
    by (simp add: scan_eval)
  have le: "pos (NewScanner ''a=1'') \<le> length (data (NewScanner ''a=1''))"
    by (simp add: NewScanner_def)
  have ty: "Type (Token None TokenIdentifier ''a'') \<noteq> TokenEOF" by simp
  from Scan_progress [OF le sc] ty sc le show ?thesis by blast
qed

text \<open>
  C6. The runes that the loop of \<open>scanIdentifier\<close> keeps: letters, digits, the combine
  runes and the underscore.
\<close>

definition isIdentifierRune :: "rune \<Rightarrow> bool" where
  "isIdentifierRune ch =
     (isLetterRune ch \<or> isDigitRune ch \<or> isIdentifierCombineRune ch \<or> ch = rune_of CHR ''_'')"

lemma EncodeRune_ascii: "ch < 128 \<Longrightarrow> EncodeRune ch = [char_of ch]"
  by (simp add: EncodeRune_def)

lemma isIdentifierRune_encode:
  assumes "isIdentifierRune ch"
  shows "\<forall>c \<in> set (EncodeRune ch). isIdentifierRune (rune_of c)"
proof -
  have "ch < 128" using assms
    by (auto simp: isIdentifierRune_def isLetterRune_def isDigitRune_def
        isIdentifierCombineRune_def)
  then show ?thesis using assms by (simp add: EncodeRune_ascii)
qed

text \<open>The error of an identifier token, read off its literal.\<close>

definition identifierError :: "string \<Rightarrow> error option" where
  "identifierError literal =
     (if literal = [] then Some RuntimePanic
      else if isIdentifierCombineRune (rune_of (last literal)) \<or>
              (length literal = 1 \<and> isIdentifierSpecialStartRune (rune_of (hd literal)))
      then Some (ErrInvalidIdentifier literal) else None)"

lemma identifierToken_error:
  "identifierToken literal s = (Token None TokenIdentifier literal, identifierError literal, s)"
  by (cases literal rule: rev_cases)
     (auto simp: identifierToken_def identifierError_def isValidIdentifier_def Let_def
        nth_append hd_conv_nth)

lemma scanIdentifier_token:
  "\<forall>t e s'. scanIdentifier funcDepth s = (t, e, s') \<longrightarrow> Type t = TokenIdentifier \<longrightarrow>
     (\<exists>more. Literal t = EncodeRune (fst (read s)) @ more \<and>
             (\<forall>c \<in> set more. isIdentifierRune (rune_of c)) \<and> e = identifierError (Literal t))"
  "\<forall>t e s'. scanIdentifier_loop funcDepth s buf = (t, e, s') \<longrightarrow> Type t = TokenIdentifier \<longrightarrow>
     (\<exists>more. Literal t = buf @ more \<and>
             (\<forall>c \<in> set more. isIdentifierRune (rune_of c)) \<and> e = identifierError (Literal t))"
  "\<forall>t e s'. scanFunctionArgs funcName funcDepth s = (t, e, s') \<longrightarrow> Type t = TokenFunction"
  "\<forall>t e s'. scanFunctionArgs_loop funcName funcDepth s args expectComma = (t, e, s') \<longrightarrow>
     Type t = TokenFunction"
proof (induction funcDepth s and funcDepth s buf and funcName funcDepth s
    and funcName funcDepth s args expectComma
    rule: scanIdentifier_scanIdentifier_loop_scanFunctionArgs_scanFunctionArgs_loop.induct)
  case (1 funcDepth s)
  obtain ch s0 where r: "read s = (ch, s0)" by (cases "read s")
  from "1.IH" [OF r [symmetric]] r show ?case
    by (simp add: scanIdentifier.simps [of funcDepth s])
next
  case (2 funcDepth s buf)
  obtain ch s1 where r: "read s = (ch, s1)" by (cases "read s")
  note eq = scanIdentifier_loop.simps [of funcDepth s buf]
  note IH = "2.IH" [OF r [symmetric]]
  show ?case
  proof (intro allI impI)
    fix t e s'
    assume res: "scanIdentifier_loop funcDepth s buf = (t, e, s')" and ty: "Type t = TokenIdentifier"
    note res' = res [unfolded eq]
    consider (stop) "ch = eof \<or> (ch \<noteq> rune_of CHR ''('' \<and> \<not> isIdentifierRune ch)"
      | (func) "ch \<noteq> eof" "ch = rune_of CHR ''(''"
      | (more) "ch \<noteq> eof" "ch \<noteq> rune_of CHR ''(''" "isIdentifierRune ch"
      by blast
    then show "\<exists>more. Literal t = buf @ more \<and>
        (\<forall>c \<in> set more. isIdentifierRune (rune_of c)) \<and> e = identifierError (Literal t)"
    proof cases
      case stop
      then have "(t, e, s') = identifierToken buf s1 \<or> (t, e, s') = identifierToken buf (unread s1)"
        using res' r by (auto simp: isIdentifierRune_def eof_def split: if_splits)
      then show ?thesis by (auto simp: identifierToken_error)
    next
      case func
      have "Type t = TokenFunction"
        using res' r func IH(1) by (auto split: if_splits option.splits)
      with ty show ?thesis by simp
    next
      case more
      then have "scanIdentifier_loop funcDepth s1 (buf @ EncodeRune ch) = (t, e, s')"
        using res' r by (auto simp: isIdentifierRune_def)
      moreover have "\<forall>t e s'. scanIdentifier_loop funcDepth s1 (buf @ EncodeRune ch) = (t, e, s') \<longrightarrow>
          Type t = TokenIdentifier \<longrightarrow>
          (\<exists>more. Literal t = (buf @ EncodeRune ch) @ more \<and>
             (\<forall>c \<in> set more. isIdentifierRune (rune_of c)) \<and> e = identifierError (Literal t))"
        using IH(2) more by (simp add: isIdentifierRune_def)
      ultimately obtain m where m: "Literal t = (buf @ EncodeRune ch) @ m"
        "\<forall>c \<in> set m. isIdentifierRune (rune_of c)" "e = identifierError (Literal t)"
        using ty by blast
      have "Literal t = buf @ (EncodeRune ch @ m) \<and>
          (\<forall>c \<in> set (EncodeRune ch @ m). isIdentifierRune (rune_of c))"
        using m isIdentifierRune_encode [OF more(3)] by auto
      with m(3) show ?thesis by blast
    qed
  qed
next
  case (3 funcName funcDepth s)
  obtain ch s1 where r: "read s = (ch, s1)" by (cases "read s")
  from "3.IH" [OF r [symmetric]] r show ?case
    by (auto simp: scanFunctionArgs.simps [of funcName funcDepth s] split: if_splits)
next
  case (4 funcName funcDepth s args expectComma)
  obtain ch s1 where r: "read s = (ch, s1)" by (cases "read s")
  note eq = scanFunctionArgs_loop.simps [of funcName funcDepth s args expectComma]
  note IH = "4.IH" [OF r [symmetric]]
  show ?case
  proof (intro allI impI)
    fix t e s'
    assume res: "scanFunctionArgs_loop funcName funcDepth s args expectComma = (t, e, s')"
    note res' = res [unfolded eq]
    consider (stop) "ch = eof \<or> ch = rune_of CHR '')''"
      | (ws) "ch \<noteq> eof" "ch \<noteq> rune_of CHR '')''" "isWhitespaceRune ch"
      | (comment) "ch \<noteq> eof" "ch \<noteq> rune_of CHR '')''" "\<not> isWhitespaceRune ch"
          "isCommentStartRune ch"
      | (comma) "ch \<noteq> eof" "ch \<noteq> rune_of CHR '')''" "\<not> isWhitespaceRune ch"
          "\<not> isCommentStartRune ch" "ch = rune_of CHR '',''"
      | (badcomma) "ch \<noteq> eof" "ch \<noteq> rune_of CHR '')''" "\<not> isWhitespaceRune ch"
          "\<not> isCommentStartRune ch" "ch \<noteq> rune_of CHR '',''" "expectComma"
      | (ident) "ch \<noteq> eof" "ch \<noteq> rune_of CHR '')''" "\<not> isWhitespaceRune ch"
          "\<not> isCommentStartRune ch" "ch \<noteq> rune_of CHR '',''" "\<not> expectComma"
          "isIdentifierStartRune ch"
      | (number) "ch \<noteq> eof" "ch \<noteq> rune_of CHR '')''" "\<not> isWhitespaceRune ch"
          "\<not> isCommentStartRune ch" "ch \<noteq> rune_of CHR '',''" "\<not> expectComma"
          "\<not> isIdentifierStartRune ch" "isNumberStartRune ch"
      | (quoted) "ch \<noteq> eof" "ch \<noteq> rune_of CHR '')''" "\<not> isWhitespaceRune ch"
          "\<not> isCommentStartRune ch" "ch \<noteq> rune_of CHR '',''" "\<not> expectComma"
          "\<not> isIdentifierStartRune ch" "\<not> isNumberStartRune ch" "isTextStartRune ch"
      | (other) "ch \<noteq> eof" "ch \<noteq> rune_of CHR '')''" "\<not> isWhitespaceRune ch"
          "\<not> isCommentStartRune ch" "ch \<noteq> rune_of CHR '',''" "\<not> expectComma"
          "\<not> isIdentifierStartRune ch" "\<not> isNumberStartRune ch" "\<not> isTextStartRune ch"
      by blast
    then show "Type t = TokenFunction"
    proof cases
      case stop
      then show ?thesis using res' r by (auto simp: eof_def)
    next
      case ws
      obtain t2 e2 s2 where w: "scanWhitespace s1 = (t2, e2, s2)"
        by (cases "scanWhitespace s1")
      show ?thesis
      proof (cases e2)
        case None
        have "scanFunctionArgs_loop funcName funcDepth s2 args expectComma = (t, e, s')"
          using res' r ws w None by simp
        moreover have "\<forall>t e s'. scanFunctionArgs_loop funcName funcDepth s2 args expectComma =
            (t, e, s') \<longrightarrow> Type t = TokenFunction"
          using IH(1) ws w None by simp
        ultimately show ?thesis by blast
      next
        case (Some x)
        then show ?thesis using res' r ws w by auto
      qed
    next
      case comment
      obtain t2 e2 s2 where w: "scanComment (unread s1) = (t2, e2, s2)"
        by (cases "scanComment (unread s1)")
      show ?thesis
      proof (cases e2)
        case None
        have "scanFunctionArgs_loop funcName funcDepth s2 args expectComma = (t, e, s')"
          using res' r comment w None by simp
        moreover have "\<forall>t e s'. scanFunctionArgs_loop funcName funcDepth s2 args expectComma =
            (t, e, s') \<longrightarrow> Type t = TokenFunction"
          using IH(2) comment w None by simp
        ultimately show ?thesis by blast
      next
        case (Some x)
        then show ?thesis using res' r comment w by auto
      qed
    next
      case comma
      show ?thesis
      proof (cases expectComma)
        case True
        have "scanFunctionArgs_loop funcName funcDepth s1 args False = (t, e, s')"
          using res' r comma True by simp
        moreover have "\<forall>t e s'. scanFunctionArgs_loop funcName funcDepth s1 args False =
            (t, e, s') \<longrightarrow> Type t = TokenFunction"
          using IH(3) comma True by simp
        ultimately show ?thesis by blast
      next
        case False
        then show ?thesis using res' r comma by auto
      qed
    next
      case badcomma
      then show ?thesis using res' r by auto
    next
      case ident
      obtain t2 e2 s2 where w: "scanIdentifier (funcDepth - 1) (unread s1) = (t2, e2, s2)"
        by (cases "scanIdentifier (funcDepth - 1) (unread s1)")
      show ?thesis
      proof (cases e2)
        case None
        have "scanFunctionArgs_loop funcName funcDepth s2 (args @ [t2]) True = (t, e, s')"
          using res' r ident w None by simp
        moreover have "\<forall>t e s'. scanFunctionArgs_loop funcName funcDepth s2 (args @ [t2]) True =
            (t, e, s') \<longrightarrow> Type t = TokenFunction"
          using IH(5) ident w None by simp
        ultimately show ?thesis by blast
      next
        case (Some x)
        then show ?thesis using res' r ident w by auto
      qed
    next
      case number
      obtain t2 e2 s2 where w: "scanNumber (unread s1) = (t2, e2, s2)"
        by (cases "scanNumber (unread s1)")
      show ?thesis
      proof (cases e2)
        case None
        have "scanFunctionArgs_loop funcName funcDepth s2 (args @ [t2]) True = (t, e, s')"
          using res' r number w None by simp
        moreover have "\<forall>t e s'. scanFunctionArgs_loop funcName funcDepth s2 (args @ [t2]) True =
            (t, e, s') \<longrightarrow> Type t = TokenFunction"
          using IH(6) number w None by simp
        ultimately show ?thesis by blast
      next
        case (Some x)
        then show ?thesis using res' r number w by auto
      qed
    next
      case quoted
      obtain t2 e2 s2 where w: "scanText False (unread s1) = (t2, e2, s2)"
        by (cases "scanText False (unread s1)")
      show ?thesis
      proof (cases e2)
        case None
        have "scanFunctionArgs_loop funcName funcDepth s2 (args @ [t2]) True = (t, e, s')"
          using res' r quoted w None by simp
        moreover have "\<forall>t e s'. scanFunctionArgs_loop funcName funcDepth s2 (args @ [t2]) True =
            (t, e, s') \<longrightarrow> Type t = TokenFunction"
          using IH(7) quoted w None by simp
        ultimately show ?thesis by blast
      next
        case (Some x)
        then show ?thesis using res' r quoted w by auto
      qed
    next
      case other
      then show ?thesis using res' r by auto
    qed
  qed
qed


lemma scanGroup_loop_type:
  "scanGroup_loop s buf openGroups = Inl (t, e, s') \<Longrightarrow> Type t = TokenGroup"
proof (induction s buf openGroups rule: scanGroup_loop.induct)
  case (1 s buf openGroups)
  obtain ch s1 where r: "read s = (ch, s1)" by (cases "read s")
  obtain t2 e2 s2 where w: "scanText True (unread s1) = (t2, e2, s2)"
    by (cases "scanText True (unread s1)")
  note res = "1.prems" [unfolded scanGroup_loop.simps [of s buf openGroups]]
  note IH = "1.IH" [OF r [symmetric]]
  show ?case using res r w IH by (auto split: if_splits)
qed

lemma Scan_identifier:
  assumes "Scan s = (t, e, s')" and "Type t = TokenIdentifier"
  shows "isIdentifierStartRune (fst (read s)) \<and> scanIdentifier (maxFuncDepth s) s = (t, e, s')"
proof -
  obtain ch s1 where r: "read s = (ch, s1)" by (cases "read s")
  have ty: "Type (fst (scanWhitespace x)) = TokenWS" "Type (fst (scanNumber x)) = TokenNumber"
    "Type (fst (scanText False x)) = TokenText" "Type (fst (scanSign x)) = TokenSign"
    "Type (fst (scanJoin x)) = TokenJoin" "Type (fst (scanComment x)) = TokenComment"
    "Type (fst (scanGroup x)) = TokenGroup" for x
    using scanGroup_loop_type [of "snd (read x)" "[]" 1]
    by (auto simp: scanWhitespace_def scanNumber_def scanText_def scanSign_def scanJoin_def
        scanComment_def scanGroup_def Let_def split: prod.splits if_splits sum.splits)
  have st: "ch \<noteq> eof \<and> isIdentifierStartRune ch \<and>
      scanIdentifier (maxFuncDepth (unread s1)) (unread s1) = (t, e, s')"
    using assms r ty [of "unread s1"]
    by (auto simp: Scan_def Let_def split: if_splits)
  then have "unread s1 = s"
    using r isIdentifierStartRune_ascii [of ch] by (simp add: read_unread_ascii)
  with st r show ?thesis by simp
qed

text \<open>
  Every identifier token that \<open>Scan\<close> returns has a literal that starts with a letter or
  one of \<open>@ _ #\<close> and goes on with letters, digits, \<open>.\<close>, \<open>:\<close> or \<open>_\<close>; it
  comes with an error exactly when the literal ends with \<open>.\<close> or \<open>:\<close> or is a single
  \<open>@\<close>, \<open>_\<close> or \<open>#\<close>, and the error is the one of an invalid identifier.
\<close>

lemma underscore_char: "rune_of c = 95 \<Longrightarrow> c = CHR ''_''"
  using of_char_eq_iff [of c "CHR ''_''", where ?'a = nat] by simp

theorem Scan_identifier_literal:
  assumes "Scan s = (t, e, s')" and "Type t = TokenIdentifier"
  shows "Literal t \<noteq> [] \<and>
         isIdentifierStartRune (rune_of (hd (Literal t))) \<and>
         (\<forall>c \<in> set (tl (Literal t)).
            isLetterRune (rune_of c) \<or> isDigitRune (rune_of c) \<or>
            isIdentifierCombineRune (rune_of c) \<or> c = CHR ''_'') \<and>
         (e \<noteq> None \<longleftrightarrow>
            isIdentifierCombineRune (rune_of (last (Literal t))) \<or>
            (length (Literal t) = 1 \<and> isIdentifierSpecialStartRune (rune_of (hd (Literal t))))) \<and>
         (e = None \<or> e = Some (ErrInvalidIdentifier (Literal t)))"
proof -
  obtain ch s1 where r: "read s = (ch, s1)" by (cases "read s")
  from Scan_identifier [OF assms] r have st: "isIdentifierStartRune ch"
    and sc: "scanIdentifier (maxFuncDepth s) s = (t, e, s')" by simp_all
  have enc: "EncodeRune ch = [char_of ch]" and ch: "rune_of (char_of ch :: char) = ch"
    using isIdentifierStartRune_ascii [OF st] by (simp_all add: EncodeRune_ascii)
  from scanIdentifier_token(1) [of "maxFuncDepth s" s] sc assms(2) r enc
  obtain m where m: "Literal t = char_of ch # m" "\<forall>c \<in> set m. isIdentifierRune (rune_of c)"
    "e = identifierError (Literal t)" by auto
  have "\<forall>c \<in> set m. isLetterRune (rune_of c) \<or> isDigitRune (rune_of c) \<or>
      isIdentifierCombineRune (rune_of c) \<or> c = CHR ''_''"
    using m(2) underscore_char by (auto simp: isIdentifierRune_def)
  then show ?thesis using m(1,3) st ch by (auto simp: identifierError_def)
qed

theorem Scan_identifier_literal_witness:
  "Scan (NewScanner ''a_b.'') =
     (Token None TokenIdentifier ''a_b.'', Some (ErrInvalidIdentifier ''a_b.''),
      \<lparr>data = ''a_b.'', pos = 4, maxFuncDepth = 3\<rparr>) \<and>
   Type (Token None TokenIdentifier ''a_b.'') = TokenIdentifier \<and>
   isIdentifierStartRune (rune_of (hd (Literal (Token None TokenIdentifier ''a_b.'')))) \<and>
   isIdentifierCombineRune (rune_of (last (Literal (Token None TokenIdentifier ''a_b.''))))"
proof -
  have sc: "Scan (NewScanner ''a_b.'') =
     (Token None TokenIdentifier ''a_b.'', Some (ErrInvalidIdentifier ''a_b.''),
      \<lparr>data = ''a_b.'', pos = 4, maxFuncDepth = 3\<rparr>)"
    by (simp add: scan_eval)
  have ty: "Type (Token None TokenIdentifier ''a_b.'') = TokenIdentifier" by simp
  from Scan_identifier_literal [OF sc ty] sc ty show ?thesis by simp
qed

text \<open>
  The underscore is kept inside an identifier although it is none of letter, digit,
  \<open>.\<close> and \<open>:\<close>: \<open>a_b\<close> is one valid identifier token.
\<close>

theorem Scan_identifier_underscore:
  "Scan (NewScanner ''a_b'') =
     (Token None TokenIdentifier ''a_b'', None, \<lparr>data = ''a_b'', pos = 3, maxFuncDepth = 3\<rparr>) \<and>
   \<not> (isLetterRune (rune_of CHR ''_'') \<or> isDigitRune (rune_of CHR ''_'') \<or>
      isIdentifierCombineRune (rune_of CHR ''_''))"
  by (simp add: scan_eval)











text \<open>
  C3. The quoted, escaped form of a string, as the round trip of the specification
  serializes it: the string between two quote characters, with a backslash before every
  occurrence of that quote character in it.
\<close>

fun escapeQuote :: "char \<Rightarrow> string \<Rightarrow> string" where
  "escapeQuote q [] = []"
| "escapeQuote q (c # cs) = (if c = q then [CHR 0x5C, q] else [c]) @ escapeQuote q cs"

definition quoteText :: "char \<Rightarrow> string \<Rightarrow> string" where
  "quoteText q s = q # escapeQuote q s @ [q]"

text \<open>
  The strings that the scanner reads back byte for byte: those that decode, rune after
  rune, into runes other than the end marker whose encoding is the bytes decoded (valid
  UTF-8 without a zero byte).
\<close>

function utf8_text :: "string \<Rightarrow> bool" where
  "utf8_text bs =
     (if bs = [] then True
      else case DecodeRune bs of
             (r, n) \<Rightarrow> r \<noteq> eof \<and> EncodeRune r = take n bs \<and> utf8_text (drop n bs))"
  by pat_completeness auto
termination
  by (relation "measure length") (auto dest: DecodeRune_width_pos)

declare utf8_text.simps [simp del]

lemma read_narrow:
  "drop (pos s) (data s) = c # cs \<Longrightarrow> rune_of c < 128 \<Longrightarrow>
     read s = (rune_of c, s\<lparr>pos := pos s + 1\<rparr>)"
  by (cases "pos s < length (data s)") (auto simp: read_def)

lemma DecodeRune_prefix:
  assumes "DecodeRune bs = (r, n)" and "EncodeRune r = take n bs" and "bs \<noteq> []"
  shows "DecodeRune (take n bs @ xs) = (r, n)"
proof (cases bs)
  case Nil
  with assms show ?thesis by simp
next
  case (Cons c0 p)
  have len: "length (EncodeRune r) = min n (length bs)" using assms(2) by simp
  have err: "length (EncodeRune RuneError) = 3" by (simp add: EncodeRune_def RuneError_def)
  show ?thesis
  proof (cases "rune_of c0 < 128")
    case True
    with Cons assms show ?thesis by auto
  next
    case False
    show ?thesis
      using assms(1) len err False Cons
      by (cases p rule: list4_cases)
         (auto simp: Let_def split: if_splits)
  qed
qed


lemma drop_append_next: "drop n xs = as @ bs \<Longrightarrow> drop (n + length as) xs = bs"
  by (metis add.commute append_eq_conv_conj drop_drop)

lemma escapeQuote_take:
  "\<forall>c \<in> set (take n bs). c \<noteq> q \<Longrightarrow> escapeQuote q bs = take n bs @ escapeQuote q (drop n bs)"
proof (induction n arbitrary: bs)
  case 0
  then show ?case by simp
next
  case (Suc n)
  then show ?case by (cases bs) auto
qed

lemma backslash_char: "rune_of c = 92 \<longleftrightarrow> c = CHR 0x5C"
  using of_char_eq_iff [of c "CHR 0x5C", where ?'a = nat] by simp

lemma scanText_loop_escaped:
  assumes q: "q = CHR 0x27 \<or> q = CHR 0x22"
  shows "utf8_text rest \<Longrightarrow> drop (pos s) (data s) = escapeQuote q rest @ [q] \<Longrightarrow>
         (if rest = [] then prevCh \<noteq> 92 else last rest \<noteq> CHR 0x5C) \<Longrightarrow>
         scanText_loop s buf (rune_of q) prevCh =
           (buf @ escapeQuote q rest @ [q], True, s\<lparr>pos := length (data s)\<rparr>)"
proof (induction "length rest" arbitrary: rest s buf prevCh rule: less_induct)
  case less
  note ok = less.prems(1) and dr = less.prems(2) and bs = less.prems(3)
  have q128: "rune_of q < 128" "rune_of q \<noteq> eof" "rune_of q \<noteq> 92" "q \<noteq> CHR 0x5C"
    using q by (auto simp: eof_def)
  have encq: "EncodeRune (rune_of q) = [q]" using q128(1) by (simp add: EncodeRune_def)
  note eq = scanText_loop.simps
  show ?case
  proof (cases "rest = []")
    case True
    have d: "drop (pos s) (data s) = q # []" using dr True by simp
    have rd: "read s = (rune_of q, s\<lparr>pos := pos s + 1\<rparr>)"
      using d q128(1) by (rule read_narrow)
    have "length (drop (pos s) (data s)) = 1" using d by simp
    then have "pos s + 1 = length (data s)" by simp
    then show ?thesis using rd True bs q128 encq by (simp add: eq [of s])
  next
    case False
    obtain r n where d: "DecodeRune rest = (r, n)" by (cases "DecodeRune rest")
    have r0: "r \<noteq> eof" and enc: "EncodeRune r = take n rest" and ok': "utf8_text (drop n rest)"
      using ok False d by (simp_all add: utf8_text.simps [of rest])
    have n: "1 \<le> n" "n \<le> length rest" using DecodeRune_width [OF False] d by simp_all
    have lastr: "last rest \<noteq> CHR 0x5C" using bs False by simp
    from DecodeRune_cases [OF False] show ?thesis
    proof
      assume a: "rune_of (hd rest) < 128 \<and> DecodeRune rest = (rune_of (hd rest), 1)"
      obtain c cs where rest: "rest = c # cs" using False by (cases rest) auto
      have c: "rune_of c < 128" "r = rune_of c" "n = 1" using a d rest by auto
      have okcs: "utf8_text cs" using ok' c rest by simp
      have lastcs: "cs \<noteq> [] \<Longrightarrow> last cs \<noteq> CHR 0x5C" using lastr rest by simp
      show ?thesis
      proof (cases "c = q")
        case True
        let ?s1 = "s\<lparr>pos := pos s + 1\<rparr>" and ?s2 = "s\<lparr>pos := pos s + 2\<rparr>"
        have d0: "drop (pos s) (data s) = CHR 0x5C # (q # escapeQuote q cs @ [q])"
          using dr rest True by simp
        have rd1: "read s = (rune_of CHR 0x5C, ?s1)" using d0 by (rule read_narrow) simp
        have d1: "drop (pos ?s1) (data ?s1) = q # (escapeQuote q cs @ [q])"
          using drop_append_next [of "pos s" "data s" "[CHR 0x5C]"] d0 by simp
        have rd2: "read ?s1 = (rune_of q, ?s2)"
          using read_narrow [OF d1 q128(1)] by simp
        have d2: "drop (pos ?s2) (data ?s2) = escapeQuote q cs @ [q]"
          using drop_append_next [of "pos s" "data s" "[CHR 0x5C, q]"] d0 by simp
        have "scanText_loop ?s2 (buf @ [CHR 0x5C, q]) (rune_of q) (rune_of q) =
            ((buf @ [CHR 0x5C, q]) @ escapeQuote q cs @ [q], True, ?s2\<lparr>pos := length (data ?s2)\<rparr>)"
          using okcs d2 lastcs q128(3) by (intro less.hyps) (auto simp: rest)
        moreover have "char_of (92::nat) = CHR 0x5C" by (simp add: char_of_eq_iff)
        then have "scanText_loop s buf (rune_of q) prevCh =
            scanText_loop ?s1 (buf @ [CHR 0x5C]) (rune_of q) 92"
          using rd1 q128 by (subst eq) (simp add: eof_def EncodeRune_def)
        moreover have "scanText_loop ?s1 (buf @ [CHR 0x5C]) (rune_of q) 92 =
            scanText_loop ?s2 (buf @ [CHR 0x5C, q]) (rune_of q) (rune_of q)"
          using rd2 q128 encq by (subst eq) simp
        ultimately show ?thesis using rest True by simp
      next
        case False
        let ?s1 = "s\<lparr>pos := pos s + 1\<rparr>"
        have d0: "drop (pos s) (data s) = c # (escapeQuote q cs @ [q])"
          using dr rest False by simp
        have rd1: "read s = (rune_of c, ?s1)" using d0 c(1) by (rule read_narrow)
        have d1: "drop (pos ?s1) (data ?s1) = escapeQuote q cs @ [q]"
          using drop_append_next [of "pos s" "data s" "[c]"] d0 by simp
        have encc: "EncodeRune (rune_of c) = [c]" using c(1) by (simp add: EncodeRune_def)
        have prev: "cs = [] \<Longrightarrow> rune_of c \<noteq> 92"
          using lastr rest backslash_char [of c] by simp
        have "scanText_loop ?s1 (buf @ [c]) (rune_of q) (rune_of c) =
            ((buf @ [c]) @ escapeQuote q cs @ [q], True, ?s1\<lparr>pos := length (data ?s1)\<rparr>)"
          using okcs d1 lastcs prev by (intro less.hyps) (auto simp: rest)
        moreover have "scanText_loop s buf (rune_of q) prevCh =
            scanText_loop ?s1 (buf @ [c]) (rune_of q) (rune_of c)"
          using rd1 r0 c(2) False encc by (simp add: eq [of s])
        ultimately show ?thesis using rest False by simp
      qed
    next
      assume a: "128 \<le> rune_of (hd rest) \<and> 128 \<le> fst (DecodeRune rest) \<and>
        (\<forall>c \<in> set (take (snd (DecodeRune rest)) rest). 128 \<le> rune_of c)"
      then have wide: "128 \<le> r" "\<forall>c \<in> set (take n rest). 128 \<le> rune_of c" using d by simp_all
      have "\<forall>c \<in> set (take n rest). c \<noteq> q" using wide(2) q128(1) by auto
      then have esc: "escapeQuote q rest = take n rest @ escapeQuote q (drop n rest)"
        by (rule escapeQuote_take)
      let ?s1 = "s\<lparr>pos := pos s + n\<rparr>"
      have d0: "drop (pos s) (data s) = take n rest @ (escapeQuote q (drop n rest) @ [q])"
        using dr esc by simp
      have lt: "pos s < length (data s)"
        using d0 n False by (cases "pos s < length (data s)") auto
      have "DecodeRune (drop (pos s) (data s)) = (r, n)"
        unfolding d0 using d enc False by (rule DecodeRune_prefix)
      then have rd1: "read s = (r, ?s1)" using lt by (simp add: read_def)
      have d1: "drop (pos ?s1) (data ?s1) = escapeQuote q (drop n rest) @ [q]"
        using drop_append_next [OF d0] n by simp
      have shorter: "length (drop n rest) < length rest" using n False by (cases rest) auto
      have cond: "if drop n rest = [] then r \<noteq> 92 else last (drop n rest) \<noteq> CHR 0x5C"
        using wide(1) lastr by (auto simp: last_drop)
      have "scanText_loop ?s1 (buf @ take n rest) (rune_of q) r =
          ((buf @ take n rest) @ escapeQuote q (drop n rest) @ [q], True,
           ?s1\<lparr>pos := length (data ?s1)\<rparr>)"
        using shorter ok' d1 cond by (rule less.hyps)
      moreover have "scanText_loop s buf (rune_of q) prevCh =
          scanText_loop ?s1 (buf @ take n rest) (rune_of q) r"
        using rd1 r0 wide(1) q128(1) enc by (simp add: eq [of s])
      ultimately show ?thesis using esc by simp
    qed
  qed
qed


lemma escapeQuote_head: "q \<noteq> CHR 0x5C \<Longrightarrow> escapeQuote q cs = x # xs \<Longrightarrow> x \<noteq> q"
  by (cases cs) (auto split: if_splits)

lemma replaceFrom_escapeQuote:
  "q \<noteq> CHR 0x5C \<Longrightarrow> replaceFrom [CHR 0x5C, q] [q] 0 (escapeQuote q s) = s"
proof (induction s)
  case Nil
  then show ?case by simp
next
  case (Cons c cs)
  show ?case
  proof (cases "c = q")
    case True
    then show ?thesis using Cons by simp
  next
    case False
    have "take 2 (c # escapeQuote q cs) \<noteq> [CHR 0x5C, q]"
      using escapeQuote_head [OF Cons.prems, of cs] by (cases "escapeQuote q cs") auto
    then show ?thesis using False Cons by simp
  qed
qed

text \<open>
  For a quote character \<open>'\<close> or \<open>"\<close> and such a string that does not end with a
  backslash, scanning the quoted form gives a text token whose literal is the string, and
  no error, with the whole input consumed; so quoting the literal again gives the form
  that was scanned.
\<close>

theorem scanText_roundtrip:
  assumes "q = CHR 0x27 \<or> q = CHR 0x22" and "utf8_text s" and "s = [] \<or> last s \<noteq> CHR 0x5C"
  shows "Scan (NewScanner (quoteText q s)) =
           (Token None TokenText s, None,
            \<lparr>data = quoteText q s, pos = length (quoteText q s), maxFuncDepth = 3\<rparr>) \<and>
         quoteText q (Literal (fst (Scan (NewScanner (quoteText q s))))) = quoteText q s"
proof -
  let ?d = "quoteText q s"
  let ?s = "NewScanner ?d" and ?t = "\<lparr>data = ?d, pos = 1, maxFuncDepth = 3\<rparr>"
  have q128: "rune_of q < 128" "rune_of q \<noteq> eof" "q \<noteq> CHR 0x5C" "isTextStartRune (rune_of q)"
    using assms(1) by (auto simp: eof_def isTextStartRune_def)
  have encq: "EncodeRune (rune_of q) = [q]" using q128(1) by (simp add: EncodeRune_def)
  have rd: "read ?s = (rune_of q, ?t)"
    using read_narrow [of ?s q "escapeQuote q s @ [q]"] q128(1)
    by (simp add: NewScanner_def quoteText_def)
  have un: "unread ?t = ?s" by (simp add: unread_def NewScanner_def)
  have "scanText_loop ?t [q] (rune_of q) 0 =
      ([q] @ escapeQuote q s @ [q], True, ?t\<lparr>pos := length (data ?t)\<rparr>)"
    using assms by (intro scanText_loop_escaped) (auto simp: quoteText_def)
  then have "scanText False ?s =
      (Token None TokenText (ReplaceAll (escapeQuote q s) [CHR 0x5C, q] [q]), None,
       \<lparr>data = ?d, pos = length ?d, maxFuncDepth = 3\<rparr>)"
    using rd encq by (simp add: scanText_def Let_def)
  then have "scanText False ?s =
      (Token None TokenText s, None, \<lparr>data = ?d, pos = length ?d, maxFuncDepth = 3\<rparr>)"
    using replaceFrom_escapeQuote [OF q128(3)] by simp
  moreover have "\<not> isWhitespaceRune (rune_of q)" "\<not> isGroupStartRune (rune_of q)"
    "\<not> isIdentifierStartRune (rune_of q)" "\<not> isNumberStartRune (rune_of q)"
    using assms(1)
    by (auto simp: isWhitespaceRune_def isGroupStartRune_def isIdentifierStartRune_def
        isLetterRune_def isIdentifierSpecialStartRune_def isNumberStartRune_def isDigitRune_def)
  then have "Scan ?s = scanText False ?s"
    using rd un q128 by (simp add: Scan_def)
  ultimately show ?thesis by simp
qed

lemma utf8_text_ascii:
  "\<forall>c \<in> set s. rune_of c < 128 \<and> c \<noteq> CHR 0x00 \<Longrightarrow> utf8_text s"
proof (induction s)
  case Nil
  then show ?case by (simp add: utf8_text.simps)
next
  case (Cons c cs)
  have "rune_of c \<noteq> 0" using Cons.prems of_char_eq_iff [of c "CHR 0x00", where ?'a = nat] by simp
  then show ?case using Cons
    by (simp add: utf8_text.simps [of "c # cs"] eof_def EncodeRune_def)
qed


theorem scanText_roundtrip_witness:
  "Scan (NewScanner (quoteText CHR 0x27 [CHR ''i'', CHR ''t'', CHR 0x27, CHR ''s''])) =
     (Token None TokenText [CHR ''i'', CHR ''t'', CHR 0x27, CHR ''s''], None,
      \<lparr>data = quoteText CHR 0x27 [CHR ''i'', CHR ''t'', CHR 0x27, CHR ''s''], pos = length (quoteText CHR 0x27 [CHR ''i'', CHR ''t'', CHR 0x27, CHR ''s'']),
        maxFuncDepth = 3\<rparr>) \<and>
   quoteText CHR 0x27 (Literal (fst (Scan (NewScanner (quoteText CHR 0x27 [CHR ''i'', CHR ''t'', CHR 0x27, CHR ''s'']))))) =
     quoteText CHR 0x27 [CHR ''i'', CHR ''t'', CHR 0x27, CHR ''s'']"
proof -
  have "utf8_text [CHR ''i'', CHR ''t'', CHR 0x27, CHR ''s'']" by (rule utf8_text_ascii) simp
  then show ?thesis using scanText_roundtrip [of "CHR 0x27" "[CHR ''i'', CHR ''t'', CHR 0x27, CHR ''s'']"] by simp
qed

text \<open>
  A string that ends with a backslash does not come back: the backslash escapes the
  closing quote, the scan fails, and the literal returned is the whole input.
\<close>

theorem scanText_trailing_backslash:
  "Scan (NewScanner (quoteText CHR 0x27 [CHR 0x5C])) =
     (Token None TokenText [CHR 0x27, CHR 0x5C, CHR 0x27],
      Some (ErrInvalidQuotedText [CHR 0x27, CHR 0x5C, CHR 0x27]),
      \<lparr>data = [CHR 0x27, CHR 0x5C, CHR 0x27], pos = 3, maxFuncDepth = 3\<rparr>) \<and>
   quoteText CHR 0x27 (Literal (fst (Scan (NewScanner (quoteText CHR 0x27 [CHR 0x5C]))))) \<noteq>
     quoteText CHR 0x27 [CHR 0x5C]"
  by (simp add: scan_eval quoteText_def)

end
